theory Spec2Isabelle
  imports Main "HOL-Library.Multiset"
begin

section \<open>The union-find structure (class UnionFind)\<close>

text \<open>
  The class keeps two dictionaries, \<open>parent\<close> and \<open>rank\<close>. A dictionary is a map; a
  subscript on a missing key raises \<open>KeyError\<close>, which is a value of the model
  (\<open>OverflowError\<close> is raised by the addition of weights, below). Every
  method returns the object after the call together with either the exception raised or
  the value returned; a call that never returns is \<open>None\<close>. The interpreter's bound on
  the recursion depth is not modelled.
\<close>

datatype error = KeyError | OverflowError

record 'v UnionFind =
  parent :: "'v \<rightharpoonup> 'v"
  rank :: "'v \<rightharpoonup> int"

definition UnionFind_init :: "'v set \<Rightarrow> 'v UnionFind" where
  "UnionFind_init elementos =
     \<lparr>parent = (\<lambda>x. if x \<in> elementos then Some x else None),
      rank = (\<lambda>x. if x \<in> elementos then Some 0 else None)\<rparr>"

partial_function (option) find_uf ::
  "'v UnionFind \<Rightarrow> 'v \<Rightarrow> ('v UnionFind \<times> (error + 'v)) option" where
  "find_uf self x =
     (case parent self x of
        None \<Rightarrow> Some (self, Inl KeyError)
      | Some p \<Rightarrow>
          if p \<noteq> x then
            Option.bind (find_uf self p) (\<lambda>(self1, res).
              case res of
                Inl e \<Rightarrow> Some (self1, Inl e)
              | Inr r \<Rightarrow>
                  (let self2 = self1\<lparr>parent := (parent self1)(x \<mapsto> r)\<rparr>
                   in case parent self2 x of
                        None \<Rightarrow> Some (self2, Inl KeyError)
                      | Some q \<Rightarrow> Some (self2, Inr q)))
          else Some (self, Inr p))"

declare find_uf.simps [code]

definition union_uf ::
  "'v UnionFind \<Rightarrow> 'v \<Rightarrow> 'v \<Rightarrow> ('v UnionFind \<times> (error + bool)) option" where
  "union_uf self x y =
     (case find_uf self x of
        None \<Rightarrow> None
      | Some (self1, Inl e) \<Rightarrow> Some (self1, Inl e)
      | Some (self1, Inr rx) \<Rightarrow>
          (case find_uf self1 y of
             None \<Rightarrow> None
           | Some (self2, Inl e) \<Rightarrow> Some (self2, Inl e)
           | Some (self2, Inr ry) \<Rightarrow>
               if rx = ry then Some (self2, Inr False)
               else
                 (case rank self2 rx of
                    None \<Rightarrow> Some (self2, Inl KeyError)
                  | Some krx \<Rightarrow>
                      (case rank self2 ry of
                         None \<Rightarrow> Some (self2, Inl KeyError)
                       | Some kry \<Rightarrow>
                           if krx < kry then
                             Some (self2\<lparr>parent := (parent self2)(rx \<mapsto> ry)\<rparr>, Inr True)
                           else if krx > kry then
                             Some (self2\<lparr>parent := (parent self2)(ry \<mapsto> rx)\<rparr>, Inr True)
                           else
                             Some (self2\<lparr>parent := (parent self2)(ry \<mapsto> rx),
                                         rank := (rank self2)(rx \<mapsto> krx + 1)\<rparr>,
                                   Inr True)))))"



section \<open>Numbers: the weights\<close>

text \<open>
  A weight is a Python number. The model holds the integers and the float \<open>nan\<close>; the
  other floats are outside the model. \<open>menor\<close> is \<open><\<close> and \<open>menor_igual\<close> is \<open><=\<close>:
  every comparison with \<open>nan\<close> is false. \<open>sumar\<close> is \<open>+\<close>: the sum of an integer and
  \<open>nan\<close> converts the integer to a float first, which raises \<open>OverflowError\<close> when its
  absolute value is \<open>2 ** 1024 - 2 ** 970\<close> or more.
\<close>

datatype numero = Entero int | NaN

fun menor :: "numero \<Rightarrow> numero \<Rightarrow> bool" where
  "menor (Entero a) (Entero b) = (a < b)"
| "menor (Entero a) NaN = False"
| "menor NaN b = False"


definition cabe_en_float :: "int \<Rightarrow> bool" where
  "cabe_en_float a = (\<bar>a\<bar> < 2 ^ 1024 - 2 ^ 970)"

fun sumar :: "numero \<Rightarrow> numero \<Rightarrow> error + numero" where
  "sumar (Entero a) (Entero b) = Inr (Entero (a + b))"
| "sumar (Entero a) NaN = (if cabe_en_float a then Inr NaN else Inl OverflowError)"
| "sumar NaN (Entero b) = (if cabe_en_float b then Inr NaN else Inl OverflowError)"
| "sumar NaN NaN = Inr NaN"

section \<open>List objects\<close>

text \<open>
  A Python list is an object, and a variable holds a reference to it. The store
  \<open>memoria\<close> gives the list that each reference holds; the references below \<open>libre\<close>
  are the ones in use. \<open>nueva_lista\<close> makes a new list object (as \<open>sorted(...)\<close> and
  \<open>[]\<close> do) and \<open>append_lista\<close> is the method \<open>append\<close>, which changes the object in
  place.
\<close>

type_synonym 'v arista = "'v \<times> 'v \<times> numero"

record 'v memoria =
  lista :: "nat \<Rightarrow> 'v arista list"
  libre :: nat

definition nueva_lista :: "'v arista list \<Rightarrow> 'v memoria \<Rightarrow> nat \<times> 'v memoria" where
  "nueva_lista xs m = (libre m, m\<lparr>lista := (lista m)(libre m := xs), libre := Suc (libre m)\<rparr>)"

definition append_lista :: "nat \<Rightarrow> 'v arista \<Rightarrow> 'v memoria \<Rightarrow> 'v memoria" where
  "append_lista r x m = m\<lparr>lista := (lista m)(r := lista m r @ [x])\<rparr>"

section \<open>Kruskal (function kruskal)\<close>

text \<open>
  An edge is the tuple \<open>(u, v, peso)\<close>. The mode \<open>tipo\<close> is the string the caller
  passes: \<open>min\<close> sorts ascending, any other string descending. \<open>nodos_de\<close> is the first
  loop of \<open>kruskal\<close>, which collects the endpoints in a set.

  \<open>sorted_py\<close> is the built-in \<open>sorted\<close> with a key: a stable sort that compares the
  keys with \<open><\<close> only and returns a new list; with \<open>reverse=True\<close> it is the stable sort
  of the reversed list, reversed. When no key is \<open>nan\<close> the result does not depend on
  the algorithm, and the model inserts each element, from the last to the first, into
  the sorted rest. When a key is \<open>nan\<close> the list the interpreter returns depends on its
  algorithm and can differ from the model's; the one run with a \<open>nan\<close> weight that is
  stated below is on a list that both leave as it is.
\<close>

definition peso :: "'v arista \<Rightarrow> numero" where
  "peso x = snd (snd x)"

definition nodos_de :: "'v arista list \<Rightarrow> 'v set" where
  "nodos_de aristas0 = fold (\<lambda>(u, v, w) nodos. insert v (insert u nodos)) aristas0 {}"

fun insertar :: "('a \<Rightarrow> numero) \<Rightarrow> 'a \<Rightarrow> 'a list \<Rightarrow> 'a list" where
  "insertar key x [] = [x]"
| "insertar key x (y # ys) =
     (if menor (key y) (key x) then y # insertar key x ys else x # y # ys)"

definition sorted_py :: "('a \<Rightarrow> numero) \<Rightarrow> bool \<Rightarrow> 'a list \<Rightarrow> 'a list" where
  "sorted_py key reverse xs =
     (if reverse then rev (foldr (insertar key) (rev xs) []) else foldr (insertar key) xs [])"

text \<open>
  \<open>print_componentes\<close> prints the components, and to find them it calls \<open>uf.find(n)\<close>
  for every \<open>n\<close> of the set \<open>nodos\<close>, which compresses paths. The model keeps this
  effect on \<open>uf\<close> and leaves the printed text out. The order in which the interpreter
  iterates a set is not fixed by the language, so it is the parameter \<open>orden\<close>: a list
  without repetitions of the elements of \<open>nodos\<close> (\<open>iteracion_de\<close>).
\<close>

fun print_componentes ::
  "'v UnionFind \<Rightarrow> 'v list \<Rightarrow> ('v UnionFind \<times> (error + unit)) option" where
  "print_componentes uf0 [] = Some (uf0, Inr ())"
| "print_componentes uf0 (n # ns) =
     (case find_uf uf0 n of
        None \<Rightarrow> None
      | Some (uf1, Inl e) \<Rightarrow> Some (uf1, Inl e)
      | Some (uf1, Inr r) \<Rightarrow> print_componentes uf1 ns)"

definition iteracion_de :: "'v list \<Rightarrow> 'v set \<Rightarrow> bool" where
  "iteracion_de orden nodos = (distinct orden \<and> set orden = nodos)"

text \<open>
  The variables of one call of \<open>kruskal\<close>. \<open>aristas\<close> is the argument, a reference to
  the list object of the caller; \<open>ordenadas\<close> (the variable \<open>aristas_ordenadas\<close>) and
  \<open>arbol\<close> are references to the list objects that the call makes. \<open>traza\<close> records what
  the loop prints for each edge it examines: the edge, the two roots and whether the
  edge was accepted.
\<close>

datatype 'v paso = Paso (arista: "'v arista") (raiz_u: 'v) (raiz_v: 'v) (aceptada: bool)

record 'v kruskal_vars =
  memoria :: "'v memoria"
  aristas :: nat
  ordenadas :: nat
  uf :: "'v UnionFind"
  arbol :: nat
  coste_total :: numero
  traza :: "'v paso list"

text \<open>
  One iteration of the loop: the two calls of \<open>find\<close>, and for different roots
  \<open>uf.union(u, v)\<close>, \<open>arbol.append((u, v, w))\<close> and \<open>coste_total += w\<close>, in this
  order; then \<open>print_componentes\<close>.
\<close>

definition probar_arista ::
  "'v list \<Rightarrow> 'v kruskal_vars \<Rightarrow> 'v arista \<Rightarrow> ('v kruskal_vars \<times> (error + unit)) option" where
  "probar_arista orden st e =
     (case e of (u, v, w) \<Rightarrow>
        (case find_uf (uf st) u of
           None \<Rightarrow> None
         | Some (uf1, Inl err) \<Rightarrow> Some (st\<lparr>uf := uf1\<rparr>, Inl err)
         | Some (uf1, Inr ru) \<Rightarrow>
             (case find_uf uf1 v of
                None \<Rightarrow> None
              | Some (uf2, Inl err) \<Rightarrow> Some (st\<lparr>uf := uf2\<rparr>, Inl err)
              | Some (uf2, Inr rv) \<Rightarrow>
                  (let st1 = st\<lparr>uf := uf2, traza := traza st @ [Paso (u, v, w) ru rv (ru \<noteq> rv)]\<rparr>
                   in if ru \<noteq> rv then
                        (case union_uf uf2 u v of
                           None \<Rightarrow> None
                         | Some (uf3, Inl err) \<Rightarrow> Some (st1\<lparr>uf := uf3\<rparr>, Inl err)
                         | Some (uf3, Inr b) \<Rightarrow>
                             (let st2 = st1\<lparr>uf := uf3,
                                            memoria := append_lista (arbol st1) (u, v, w)
                                                         (memoria st1)\<rparr>
                              in case sumar (coste_total st2) w of
                                   Inl err \<Rightarrow> Some (st2, Inl err)
                                 | Inr c \<Rightarrow>
                                     (let st3 = st2\<lparr>coste_total := c\<rparr>
                                      in case print_componentes uf3 orden of
                                           None \<Rightarrow> None
                                         | Some (uf4, Inl err) \<Rightarrow> Some (st3\<lparr>uf := uf4\<rparr>, Inl err)
                                         | Some (uf4, Inr _) \<Rightarrow> Some (st3\<lparr>uf := uf4\<rparr>, Inr ()))))
                      else
                        (case print_componentes uf2 orden of
                           None \<Rightarrow> None
                         | Some (uf4, Inl err) \<Rightarrow> Some (st1\<lparr>uf := uf4\<rparr>, Inl err)
                         | Some (uf4, Inr _) \<Rightarrow> Some (st1\<lparr>uf := uf4\<rparr>, Inr ()))))))"

text \<open>
  The loop \<open>for (u, v, w) in aristas_ordenadas\<close>. Its body changes no list object but
  \<open>arbol\<close>, so the edges it runs over are those of the list as read when the loop
  starts.
\<close>

fun kruskal_loop ::
  "'v list \<Rightarrow> 'v kruskal_vars \<Rightarrow> 'v arista list \<Rightarrow> ('v kruskal_vars \<times> (error + unit)) option" where
  "kruskal_loop orden st [] = Some (st, Inr ())"
| "kruskal_loop orden st (e # es) =
     (case probar_arista orden st e of
        None \<Rightarrow> None
      | Some (st1, Inl err) \<Rightarrow> Some (st1, Inl err)
      | Some (st1, Inr _) \<Rightarrow> kruskal_loop orden st1 es)"

definition aristas_ordenadas :: "'v arista list \<Rightarrow> string \<Rightarrow> 'v arista list" where
  "aristas_ordenadas aristas0 tipo =
     (if tipo = ''min'' then sorted_py (\<lambda>x. snd (snd x)) False aristas0
      else sorted_py (\<lambda>x. snd (snd x)) True aristas0)"

text \<open>
  \<open>kruskal orden m a tipo\<close> is the call \<open>kruskal(aristas, tipo)\<close> in the store \<open>m\<close>, where
  \<open>a\<close> is the reference to the list \<open>aristas\<close>. It returns the variables and the store
  after the call, with the exception raised or the value returned: the pair of the
  reference \<open>arbol\<close> and \<open>coste_total\<close>.
\<close>

definition kruskal ::
  "'v list \<Rightarrow> 'v memoria \<Rightarrow> nat \<Rightarrow> string
     \<Rightarrow> ('v kruskal_vars \<times> (error + nat \<times> numero)) option" where
  "kruskal orden m a tipo =
     (let nodos = nodos_de (lista m a);
          (r_ordenadas, m1) = nueva_lista (aristas_ordenadas (lista m a) tipo) m;
          uf0 = UnionFind_init nodos;
          (r_arbol, m2) = nueva_lista [] m1;
          st0 = \<lparr>memoria = m2, aristas = a, ordenadas = r_ordenadas, uf = uf0,
                 arbol = r_arbol, coste_total = Entero 0, traza = []\<rparr>
      in case print_componentes (uf st0) orden of
           None \<Rightarrow> None
         | Some (uf1, Inl err) \<Rightarrow> Some (st0\<lparr>uf := uf1\<rparr>, Inl err)
         | Some (uf1, Inr _) \<Rightarrow>
             (case kruskal_loop orden (st0\<lparr>uf := uf1\<rparr>)
                     (lista (memoria st0) (ordenadas st0)) of
                None \<Rightarrow> None
              | Some (st, Inl err) \<Rightarrow> Some (st, Inl err)
              | Some (st, Inr _) \<Rightarrow> Some (st, Inr (arbol st, coste_total st))))"

text \<open>
  \<open>arbol_de st\<close> is the list that the reference \<open>arbol\<close> holds: the accepted edges.
  \<open>memoria_con es\<close> is a store whose only list object, at reference 0, is \<open>es\<close>.
\<close>

definition arbol_de :: "'v kruskal_vars \<Rightarrow> 'v arista list" where
  "arbol_de st = lista (memoria st) (arbol st)"

definition memoria_con :: "'v arista list \<Rightarrow> 'v memoria" where
  "memoria_con es = \<lparr>lista = (\<lambda>r. [])(0 := es), libre = 1\<rparr>"

definition grafo_ejemplo :: "string arista list" where
  "grafo_ejemplo =
     [(''A'', ''B'', Entero 4), (''A'', ''C'', Entero 2), (''B'', ''C'', Entero 5),
      (''B'', ''D'', Entero 10), (''C'', ''D'', Entero 3), (''C'', ''E'', Entero 4),
      (''D'', ''E'', Entero 11), (''D'', ''F'', Entero 2), (''E'', ''F'', Entero 1)]"


section \<open>Notions used in the statements\<close>

text \<open>
  \<open>root_of par x r\<close>: following the parent links from \<open>x\<close> ends in the root \<open>r\<close>, a
  vertex that is its own parent. \<open>parent_rel\<close> holds the links between different
  vertices. \<open>reachable V s\<close>: the object \<open>s\<close> results from \<open>UnionFind(V)\<close> by a
  sequence of calls of \<open>find\<close> and \<open>union\<close>, with any arguments, also calls that
  raise.
\<close>

inductive root_of :: "('v \<rightharpoonup> 'v) \<Rightarrow> 'v \<Rightarrow> 'v \<Rightarrow> bool" for par where
  root: "par r = Some r \<Longrightarrow> root_of par r r"
| step: "par x = Some p \<Longrightarrow> p \<noteq> x \<Longrightarrow> root_of par p r \<Longrightarrow> root_of par x r"

definition parent_rel :: "('v \<rightharpoonup> 'v) \<Rightarrow> ('v \<times> 'v) set" where
  "parent_rel par = {(p, x). par x = Some p \<and> p \<noteq> x}"

inductive reachable :: "'v set \<Rightarrow> 'v UnionFind \<Rightarrow> bool" for V where
  init: "reachable V (UnionFind_init V)"
| find: "reachable V s \<Longrightarrow> find_uf s x = Some (s', res) \<Longrightarrow> reachable V s'"
| union: "reachable V s \<Longrightarrow> union_uf s x y = Some (s', res) \<Longrightarrow> reachable V s'"

text \<open>
  \<open>compressed s s'\<close>: \<open>s'\<close> differs from \<open>s\<close> only by path compression: the ranks are
  the same and the parent of a vertex is the old one or the root of the vertex.
  \<open>uf_valid V s\<close> is the invariant of the structure over the vertex set \<open>V\<close>.
\<close>

definition compressed :: "'v UnionFind \<Rightarrow> 'v UnionFind \<Rightarrow> bool" where
  "compressed s s' =
     (rank s' = rank s \<and>
      (\<forall>y. parent s' y = parent s y \<or>
           (\<exists>r. parent s' y = Some r \<and> r \<noteq> y \<and> root_of (parent s) y r)))"

definition uf_valid :: "'v set \<Rightarrow> 'v UnionFind \<Rightarrow> bool" where
  "uf_valid V s =
     (dom (parent s) = V \<and> dom (rank s) = V \<and>
      (\<forall>x \<in> V. \<exists>r \<in> V. root_of (parent s) x r))"

text \<open>
  The input graph: two vertices are adjacent when an edge joins them, in either
  direction, and the graph is connected when every two of its vertices are joined by
  a path.
\<close>

definition adyacentes :: "'v arista list \<Rightarrow> ('v \<times> 'v) set" where
  "adyacentes es = {(x, y). \<exists>w. (x, y, w) \<in> set es \<or> (y, x, w) \<in> set es}"

definition conexo :: "'v arista list \<Rightarrow> bool" where
  "conexo es = (\<forall>x \<in> nodos_de es. \<forall>y \<in> nodos_de es. (x, y) \<in> (adyacentes es)\<^sup>*)"


text \<open>
  An object used in the examples: \<open>UnionFind({1, 2, 3, 4})\<close> after \<open>union(1, 2)\<close>,
  \<open>union(3, 4)\<close> and \<open>union(1, 3)\<close>. The path of vertex 4 has two links: 4, 3, 1.
\<close>

definition uf_ejemplo :: "nat UnionFind" where
  "uf_ejemplo =
     \<lparr>parent = (\<lambda>x. if x \<in> {1, 2, 3, 4} then Some x else None)(2 \<mapsto> 1, 4 \<mapsto> 3, 3 \<mapsto> 1),
      rank = (\<lambda>x. if x \<in> {1, 2, 3, 4} then Some 0 else None)(1 \<mapsto> 1, 3 \<mapsto> 1, 1 \<mapsto> 2)\<rparr>"

text \<open>
  For the loop of \<open>kruskal\<close>: the set of roots of an object, two vertices having the
  same root, and a vertex whose parent is a root.
\<close>

definition roots :: "'v UnionFind \<Rightarrow> 'v set" where
  "roots s = {r. parent s r = Some r}"

definition same_root :: "'v UnionFind \<Rightarrow> 'v \<Rightarrow> 'v \<Rightarrow> bool" where
  "same_root s x y = (\<exists>r. root_of (parent s) x r \<and> root_of (parent s) y r)"

definition flat_at :: "'v UnionFind \<Rightarrow> 'v \<Rightarrow> bool" where
  "flat_at s n = (\<exists>r. parent s n = Some r \<and> parent s r = Some r)"

text \<open>
  \<open>marco st st'\<close>: from \<open>st\<close> to \<open>st'\<close> the references are the same, no list object is
  made, and no list object but \<open>arbol\<close> is changed.
  \<open>avance V st e st'\<close> collects what one iteration of the loop of \<open>kruskal\<close> on the
  edge \<open>e\<close> does when it raises nothing: the edge is added to the trace, an
  accepted edge removes one root, and the components of \<open>uf\<close> are the old ones with
  those of the endpoints merged.
\<close>

definition marco :: "'v kruskal_vars \<Rightarrow> 'v kruskal_vars \<Rightarrow> bool" where
  "marco st st' =
     (aristas st' = aristas st \<and> ordenadas st' = ordenadas st \<and> arbol st' = arbol st \<and>
      libre (memoria st') = libre (memoria st) \<and>
      (\<forall>r. r \<noteq> arbol st \<longrightarrow> lista (memoria st') r = lista (memoria st) r))"

definition avance :: "'v set \<Rightarrow> 'v kruskal_vars \<Rightarrow> 'v arista \<Rightarrow> 'v kruskal_vars \<Rightarrow> bool" where
  "avance V st e st' =
     (uf_valid V (uf st') \<and>
      map arista (traza st') = map arista (traza st) @ [e] \<and>
      length (arbol_de st') + card (roots (uf st')) =
        length (arbol_de st) + card (roots (uf st)) \<and>
      (\<forall>x y. same_root (uf st) x y \<longrightarrow> same_root (uf st') x y) \<and>
      same_root (uf st') (fst e) (fst (snd e)) \<and>
      (\<forall>x y. same_root (uf st') x y \<longrightarrow>
         same_root (uf st) x y \<or>
         (same_root (uf st) x (fst e) \<and> same_root (uf st) (fst (snd e)) y) \<or>
         (same_root (uf st) x (fst (snd e)) \<and> same_root (uf st) (fst e) y)))"

text \<open>
  \<open>recorrido V st es st'\<close> is what the whole loop over the edges \<open>es\<close> does when it
  raises nothing: the trace grows by \<open>es\<close> in order, every accepted edge removes one
  root, the endpoints of every edge of \<open>es\<close> end in the same component, and two
  vertices are in the same component at the end only if a path of old components and
  edges of \<open>es\<close> joins them.
\<close>

definition recorrido ::
  "'v set \<Rightarrow> 'v kruskal_vars \<Rightarrow> 'v arista list \<Rightarrow> 'v kruskal_vars \<Rightarrow> bool" where
  "recorrido V st es st' =
     (uf_valid V (uf st') \<and>
      map arista (traza st') = map arista (traza st) @ es \<and>
      length (arbol_de st') + card (roots (uf st')) =
        length (arbol_de st) + card (roots (uf st)) \<and>
      (\<forall>x y. same_root (uf st) x y \<longrightarrow> same_root (uf st') x y) \<and>
      (\<forall>e \<in> set es. same_root (uf st') (fst e) (fst (snd e))) \<and>
      (\<forall>x y. same_root (uf st') x y \<longrightarrow>
         (x, y) \<in> ({(x, y). same_root (uf st) x y} \<union> adyacentes es)\<^sup>*))"

text \<open>
  One order of iteration of the six vertices of \<open>grafo_ejemplo\<close>, and the second
  example input with its four vertices.
\<close>

definition orden_ejemplo :: "string list" where
  "orden_ejemplo = [''A'', ''B'', ''C'', ''D'', ''E'', ''F'']"

definition grafo_dos_componentes :: "string arista list" where
  "grafo_dos_componentes = [(''A'', ''B'', Entero 1), (''C'', ''D'', Entero 2)]"

definition orden_dos_componentes :: "string list" where
  "orden_dos_componentes = [''A'', ''B'', ''C'', ''D'']"

text \<open>
  Two more inputs: a single edge, and the same edge with a loop on a third vertex.
\<close>

definition grafo_una_arista :: "string arista list" where
  "grafo_una_arista = [(''A'', ''B'', Entero 1)]"

definition grafo_con_lazo :: "string arista list" where
  "grafo_con_lazo = [(''A'', ''B'', Entero 1), (''C'', ''C'', Entero 2)]"



text \<open>
  What the caller has after a call of \<open>kruskal\<close>: \<open>devuelto\<close> is the exception raised
  or the value returned, with the list that the returned reference holds in the place
  of the reference; \<open>pesos_probados\<close> is the weights of the edges that the loop
  examined, in the order of the trace.
\<close>

definition devuelto ::
  "('v kruskal_vars \<times> (error + nat \<times> numero)) option
     \<Rightarrow> (error + 'v arista list \<times> numero) option" where
  "devuelto r =
     map_option (\<lambda>(st, out). map_sum id (\<lambda>(ref, c). (lista (memoria st) ref, c)) out) r"



section \<open>Roots and path compression\<close>


lemma root_of_is_root: "root_of par x r \<Longrightarrow> par r = Some r"
  by (induction rule: root_of.induct) auto

lemma root_of_unique: "root_of par x r \<Longrightarrow> root_of par x r' \<Longrightarrow> r = r'"
proof (induction arbitrary: r' rule: root_of.induct)
  case (root r)
  from root.prems root.hyps show ?case by (cases rule: root_of.cases) auto
next
  case (step x p r)
  from step.prems step.hyps(1,2) have "root_of par p r'"
    by (cases rule: root_of.cases) auto
  then show ?case by (rule step.IH)
qed

lemma root_of_dom: "root_of par x r \<Longrightarrow> x \<in> dom par"
  by (cases rule: root_of.cases) auto

lemma root_of_self: "par r = Some r \<Longrightarrow> root_of par r r' \<longleftrightarrow> r' = r"
  using root_of_unique root_of.root by metis

lemma compressed_refl: "compressed s s"
  by (simp add: compressed_def)

lemma compressed_rank: "compressed s s' \<Longrightarrow> rank s' = rank s"
  by (simp add: compressed_def)

lemma compressed_is_root:
  assumes "compressed s s'"
  shows "parent s' r = Some r \<longleftrightarrow> parent s r = Some r"
proof
  assume a: "parent s' r = Some r"
  from assms have "parent s' r = parent s r \<or> (\<exists>q. parent s' r = Some q \<and> q \<noteq> r \<and> root_of (parent s) r q)"
    by (simp add: compressed_def)
  with a show "parent s r = Some r" by auto
next
  assume a: "parent s r = Some r"
  from assms have "parent s' r = parent s r \<or> (\<exists>q. parent s' r = Some q \<and> q \<noteq> r \<and> root_of (parent s) r q)"
    by (simp add: compressed_def)
  with a show "parent s' r = Some r" by (auto simp: root_of_self)
qed

lemma compressed_root_of_back:
  assumes c: "compressed s s'"
  shows "root_of (parent s') x r \<Longrightarrow> root_of (parent s) x r"
proof (induction rule: root_of.induct)
  case (root r)
  then show ?case using compressed_is_root[OF c] by (simp add: root_of.root)
next
  case (step x p r)
  from c have "parent s' x = parent s x \<or> (\<exists>q. parent s' x = Some q \<and> q \<noteq> x \<and> root_of (parent s) x q)"
    by (simp add: compressed_def)
  then show ?case
  proof
    assume "parent s' x = parent s x"
    with step show ?thesis by (auto intro: root_of.step)
  next
    assume "\<exists>q. parent s' x = Some q \<and> q \<noteq> x \<and> root_of (parent s) x q"
    then obtain q where q: "parent s' x = Some q" "root_of (parent s) x q" by blast
    with step.hyps have "q = p" by simp
    with q have "parent s p = Some p" using root_of_is_root by fastforce
    with step.IH have "r = p" by (simp add: root_of_self)
    with q \<open>q = p\<close> show ?thesis by simp
  qed
qed

lemma compressed_root_of_forw:
  assumes c: "compressed s s'"
  shows "root_of (parent s) x r \<Longrightarrow> root_of (parent s') x r"
proof (induction rule: root_of.induct)
  case (root r)
  then show ?case using compressed_is_root[OF c] by (simp add: root_of.root)
next
  case (step x p r)
  have rx: "root_of (parent s) x r" using step.hyps by (rule root_of.step)
  from c have "parent s' x = parent s x \<or> (\<exists>q. parent s' x = Some q \<and> q \<noteq> x \<and> root_of (parent s) x q)"
    by (simp add: compressed_def)
  then show ?case
  proof
    assume "parent s' x = parent s x"
    with step show ?thesis by (auto intro: root_of.step)
  next
    assume "\<exists>q. parent s' x = Some q \<and> q \<noteq> x \<and> root_of (parent s) x q"
    then obtain q where q: "parent s' x = Some q" "q \<noteq> x" "root_of (parent s) x q" by blast
    with rx have "q = r" using root_of_unique by fastforce
    have "parent s' r = Some r"
      using compressed_is_root[OF c] root_of_is_root[OF rx] by simp
    then have "root_of (parent s') r r" by (rule root_of.root)
    with q \<open>q = r\<close> show ?thesis by (auto intro: root_of.step)
  qed
qed

lemma compressed_root_of: "compressed s s' \<Longrightarrow> root_of (parent s') x r \<longleftrightarrow> root_of (parent s) x r"
  using compressed_root_of_back compressed_root_of_forw by metis

lemma compressed_trans:
  assumes "compressed s s1" "compressed s1 s2"
  shows "compressed s s2"
  unfolding compressed_def
proof (intro conjI allI)
  show "rank s2 = rank s" using assms by (simp add: compressed_def)
next
  fix y
  from assms(2) have "parent s2 y = parent s1 y \<or> (\<exists>r. parent s2 y = Some r \<and> r \<noteq> y \<and> root_of (parent s1) y r)"
    by (simp add: compressed_def)
  moreover from assms(1) have "parent s1 y = parent s y \<or> (\<exists>r. parent s1 y = Some r \<and> r \<noteq> y \<and> root_of (parent s) y r)"
    by (simp add: compressed_def)
  ultimately show "parent s2 y = parent s y \<or> (\<exists>r. parent s2 y = Some r \<and> r \<noteq> y \<and> root_of (parent s) y r)"
    using compressed_root_of[OF assms(1)] by auto
qed

lemma compressed_dom: "compressed s s' \<Longrightarrow> dom (parent s') = dom (parent s)"
proof -
  assume c: "compressed s s'"
  have "\<And>y. (parent s' y = None) = (parent s y = None)"
  proof -
    fix y
    from c have "parent s' y = parent s y \<or> (\<exists>r. parent s' y = Some r \<and> r \<noteq> y \<and> root_of (parent s) y r)"
      by (simp add: compressed_def)
    then show "(parent s' y = None) = (parent s y = None)"
      using root_of_dom by fastforce
  qed
  then show ?thesis by (auto simp: dom_def)
qed

lemma compressed_valid: "compressed s s' \<Longrightarrow> uf_valid V s \<Longrightarrow> uf_valid V s'"
  unfolding uf_valid_def
  using compressed_dom compressed_rank compressed_root_of by metis

lemma find_uf_unknown: "parent s x = None \<Longrightarrow> find_uf s x = Some (s, Inl KeyError)"
  by (subst find_uf.simps) simp

lemma find_uf_root_of:
  assumes "root_of (parent s) x r"
  shows "\<exists>s'. find_uf s x = Some (s', Inr r) \<and> compressed s s' \<and> parent s' x = Some r"
  using assms
proof (induction rule: root_of.induct)
  case (root r)
  have "find_uf s r = Some (s, Inr r)"
    by (subst find_uf.simps) (simp add: root)
  then show ?case using root by (simp add: compressed_refl)
next
  case (step x p r)
  then obtain s1 where s1: "find_uf s p = Some (s1, Inr r)" "compressed s s1"
    by blast
  let ?s2 = "s1\<lparr>parent := (parent s1)(x \<mapsto> r)\<rparr>"
  have f: "find_uf s x = Some (?s2, Inr r)"
    by (subst find_uf.simps) (simp add: step.hyps s1)
  have rx: "root_of (parent s) x r" using step.hyps by (rule root_of.step)
  have "parent s r = Some r" using rx by (rule root_of_is_root)
  with step.hyps have ne: "r \<noteq> x" by auto
  have "compressed s ?s2"
    unfolding compressed_def
  proof (intro conjI allI)
    show "rank ?s2 = rank s" using s1(2) by (simp add: compressed_def)
  next
    fix y
    show "parent ?s2 y = parent s y \<or>
          (\<exists>r. parent ?s2 y = Some r \<and> r \<noteq> y \<and> root_of (parent s) y r)"
    proof (cases "y = x")
      case True
      then show ?thesis using ne rx by simp
    next
      case False
      then show ?thesis using s1(2) by (simp add: compressed_def)
    qed
  qed
  with f show ?case by simp
qed

lemma find_uf_valid:
  assumes "uf_valid V s" "x \<in> V"
  shows "\<exists>s' r. r \<in> V \<and> root_of (parent s) x r \<and> find_uf s x = Some (s', Inr r) \<and>
           compressed s s' \<and> parent s' x = Some r"
proof -
  from assms have "\<exists>r \<in> V. root_of (parent s) x r"
    unfolding uf_valid_def by blast
  then obtain r where r: "r \<in> V" "root_of (parent s) x r" by blast
  from find_uf_root_of[OF r(2)] obtain s' where
    "find_uf s x = Some (s', Inr r)" "compressed s s'" "parent s' x = Some r" by auto
  with r show ?thesis by (intro exI[of _ s'] exI[of _ r]) simp
qed

lemma find_uf_total:
  assumes "uf_valid V s"
  shows "\<exists>s' res. find_uf s x = Some (s', res) \<and> compressed s s'"
proof (cases "x \<in> V")
  case True
  from find_uf_valid[OF assms True] obtain s' r where
    "find_uf s x = Some (s', Inr r)" "compressed s s'" by auto
  then show ?thesis by (intro exI[of _ s'] exI[of _ "Inr r"]) simp
next
  case False
  with assms have "parent s x = None" by (auto simp: uf_valid_def)
  then have "find_uf s x = Some (s, Inl KeyError)" by (rule find_uf_unknown)
  then show ?thesis by (intro exI[of _ s] exI[of _ "Inl KeyError"]) (simp add: compressed_refl)
qed

lemma find_uf_step_valid:
  assumes "uf_valid V s" "find_uf s x = Some (s', res)"
  shows "compressed s s'"
proof -
  from find_uf_total[OF assms(1), of x] obtain s1 res1 where
    "find_uf s x = Some (s1, res1)" "compressed s s1" by auto
  with assms(2) show ?thesis by simp
qed

lemma root_of_link:
  assumes "par a = Some a" "a \<noteq> b" "par b = Some b"
  shows "root_of par x r \<Longrightarrow> root_of (par(a \<mapsto> b)) x (if r = a then b else r)"
proof (induction rule: root_of.induct)
  case (root r)
  show ?case
  proof (cases "r = a")
    case True
    have bb: "root_of (par(a \<mapsto> b)) b b" using assms by (simp add: root_of.root)
    have "(par(a \<mapsto> b)) a = Some b" by simp
    then have "root_of (par(a \<mapsto> b)) a b" using assms(2) bb by (rule root_of.step[OF _ not_sym])
    with True show ?thesis by (simp only: refl if_True)
  next
    case False
    then show ?thesis using root by (simp add: root_of.root)
  qed
next
  case (step x p r)
  with assms have "x \<noteq> a" by auto
  then have "(par(a \<mapsto> b)) x = Some p" using step.hyps by simp
  then show ?case using step.hyps(2) step.IH by (rule root_of.step)
qed

lemma uf_valid_link:
  assumes v: "uf_valid V s" and a: "parent s a = Some a" and b: "parent s b = Some b"
    and ne: "a \<noteq> b" and c: "c \<in> V"
  shows "uf_valid V (s\<lparr>parent := (parent s)(a \<mapsto> b)\<rparr>)"
    and "uf_valid V (s\<lparr>parent := (parent s)(a \<mapsto> b), rank := (rank s)(c \<mapsto> k)\<rparr>)"
proof -
  from v a b have aV: "a \<in> V" and bV: "b \<in> V" by (auto simp: uf_valid_def)
  have d: "dom ((parent s)(a \<mapsto> b)) = V" using v aV by (auto simp: uf_valid_def)
  have dr: "dom ((rank s)(c \<mapsto> k)) = V" using v c by (auto simp: uf_valid_def)
  have r: "\<forall>x \<in> V. \<exists>r \<in> V. root_of ((parent s)(a \<mapsto> b)) x r"
  proof
    fix x assume "x \<in> V"
    with v have "\<exists>r \<in> V. root_of (parent s) x r" unfolding uf_valid_def by blast
    then obtain r where r: "r \<in> V" "root_of (parent s) x r" by blast
    from root_of_link[OF a ne b r(2)] r(1) bV
    show "\<exists>r \<in> V. root_of ((parent s)(a \<mapsto> b)) x r" by (cases "r = a") auto
  qed
  show "uf_valid V (s\<lparr>parent := (parent s)(a \<mapsto> b)\<rparr>)"
    using d r v by (simp add: uf_valid_def)
  show "uf_valid V (s\<lparr>parent := (parent s)(a \<mapsto> b), rank := (rank s)(c \<mapsto> k)\<rparr>)"
    using d dr r by (simp add: uf_valid_def)
qed

lemma union_uf_valid_args:
  assumes v: "uf_valid V s" and x: "x \<in> V" and y: "y \<in> V"
  shows "\<exists>s2 rx ry kx ky.
           compressed s s2 \<and> root_of (parent s) x rx \<and> root_of (parent s) y ry \<and>
           rx \<in> V \<and> ry \<in> V \<and> rank s rx = Some kx \<and> rank s ry = Some ky \<and>
           union_uf s x y =
             Some (if rx = ry then (s2, Inr False)
                   else if kx < ky then (s2\<lparr>parent := (parent s2)(rx \<mapsto> ry)\<rparr>, Inr True)
                   else if kx > ky then (s2\<lparr>parent := (parent s2)(ry \<mapsto> rx)\<rparr>, Inr True)
                   else (s2\<lparr>parent := (parent s2)(ry \<mapsto> rx),
                            rank := (rank s2)(rx \<mapsto> kx + 1)\<rparr>, Inr True))"
proof -
  from find_uf_valid[OF v x] obtain s1 rx where
    1: "rx \<in> V" "root_of (parent s) x rx" "find_uf s x = Some (s1, Inr rx)" "compressed s s1"
    by auto
  have v1: "uf_valid V s1" using 1(4) v by (rule compressed_valid)
  from find_uf_valid[OF v1 y] obtain s2 ry where
    2: "ry \<in> V" "root_of (parent s1) y ry" "find_uf s1 y = Some (s2, Inr ry)" "compressed s1 s2"
    by auto
  have c: "compressed s s2" using 1(4) 2(4) by (rule compressed_trans)
  have ry: "root_of (parent s) y ry" using 2(2) compressed_root_of[OF 1(4)] by simp
  have "dom (rank s) = V" using v by (simp add: uf_valid_def)
  with 1(1) 2(1) obtain kx ky where k: "rank s rx = Some kx" "rank s ry = Some ky"
    by (metis domD)
  have r2: "rank s2 = rank s" using c by (rule compressed_rank)
  have "union_uf s x y =
             Some (if rx = ry then (s2, Inr False)
                   else if kx < ky then (s2\<lparr>parent := (parent s2)(rx \<mapsto> ry)\<rparr>, Inr True)
                   else if kx > ky then (s2\<lparr>parent := (parent s2)(ry \<mapsto> rx)\<rparr>, Inr True)
                   else (s2\<lparr>parent := (parent s2)(ry \<mapsto> rx),
                            rank := (rank s2)(rx \<mapsto> kx + 1)\<rparr>, Inr True))"
    by (simp add: union_uf_def 1(3) 2(3) r2 k)
  with c 1(1,2) 2(1) ry k show ?thesis
    by (intro exI[of _ s2] exI[of _ rx] exI[of _ ry] exI[of _ kx] exI[of _ ky]) simp
qed

lemma union_uf_total:
  assumes v: "uf_valid V s"
  shows "\<exists>s' res. union_uf s x y = Some (s', res) \<and> uf_valid V s'"
proof (cases "x \<in> V")
  case False
  with v have "parent s x = None" by (auto simp: uf_valid_def)
  then have "find_uf s x = Some (s, Inl KeyError)" by (rule find_uf_unknown)
  then have "union_uf s x y = Some (s, Inl KeyError)" by (simp add: union_uf_def)
  with v show ?thesis by simp
next
  case x: True
  show ?thesis
  proof (cases "y \<in> V")
    case False
    from find_uf_valid[OF v x] obtain s1 rx where
      1: "find_uf s x = Some (s1, Inr rx)" "compressed s s1" by auto
    have v1: "uf_valid V s1" using 1(2) v by (rule compressed_valid)
    with False have "parent s1 y = None" by (auto simp: uf_valid_def)
    then have "find_uf s1 y = Some (s1, Inl KeyError)" by (rule find_uf_unknown)
    with 1 have "union_uf s x y = Some (s1, Inl KeyError)" by (simp add: union_uf_def)
    with v1 show ?thesis by simp
  next
    case y: True
    from union_uf_valid_args[OF v x y] obtain s2 rx ry kx ky where
      c: "compressed s s2" and rx: "root_of (parent s) x rx" and ry: "root_of (parent s) y ry"
      and V: "rx \<in> V" "ry \<in> V"
      and u: "union_uf s x y =
             Some (if rx = ry then (s2, Inr False)
                   else if kx < ky then (s2\<lparr>parent := (parent s2)(rx \<mapsto> ry)\<rparr>, Inr True)
                   else if kx > ky then (s2\<lparr>parent := (parent s2)(ry \<mapsto> rx)\<rparr>, Inr True)
                   else (s2\<lparr>parent := (parent s2)(ry \<mapsto> rx),
                            rank := (rank s2)(rx \<mapsto> kx + 1)\<rparr>, Inr True))"
      by auto
    have v2: "uf_valid V s2" using c v by (rule compressed_valid)
    have px: "parent s2 rx = Some rx"
      using compressed_is_root[OF c] root_of_is_root[OF rx] by simp
    have py: "parent s2 ry = Some ry"
      using compressed_is_root[OF c] root_of_is_root[OF ry] by simp
    show ?thesis
    proof (cases "rx = ry")
      case True
      with u v2 show ?thesis by simp
    next
      case False
      then have ne': "ry \<noteq> rx" by simp
      note l1 = uf_valid_link[OF v2 px py False V(1)]
      note l2 = uf_valid_link[OF v2 py px ne' V(1)]
      from u False l1(1) l2 show ?thesis by (simp split: if_splits)
    qed
  qed
qed

lemma UnionFind_init_valid: "uf_valid V (UnionFind_init V)"
  unfolding uf_valid_def
proof (intro conjI ballI)
  show "dom (parent (UnionFind_init V)) = V"
    by (auto simp: UnionFind_init_def dom_def)
  show "dom (rank (UnionFind_init V)) = V"
    by (auto simp: UnionFind_init_def dom_def)
next
  fix x assume "x \<in> V"
  then have "root_of (parent (UnionFind_init V)) x x"
    by (simp add: UnionFind_init_def root_of.root)
  with \<open>x \<in> V\<close> show "\<exists>r \<in> V. root_of (parent (UnionFind_init V)) x r" by (rule bexI[rotated])
qed

lemma reachable_valid: "reachable V s \<Longrightarrow> uf_valid V s"
proof (induction rule: reachable.induct)
  case init
  show ?case by (rule UnionFind_init_valid)
next
  case (find s x s' res)
  from find.IH find.hyps(2) have "compressed s s'" by (rule find_uf_step_valid)
  then show ?case using find.IH by (rule compressed_valid)
next
  case (union s x y s' res)
  from union_uf_total[OF union.IH, of x y] union.hyps(2) show ?case by auto
qed

lemma find_uf_flat:
  assumes "parent s x = Some r" "parent s r = Some r"
  shows "find_uf s x = Some (s, Inr r)"
proof (cases "r = x")
  case True
  with assms show ?thesis by (subst find_uf.simps) simp
next
  case False
  have r: "find_uf s r = Some (s, Inr r)"
    using assms(2) by (subst find_uf.simps) simp
  have "(parent s)(x \<mapsto> r) = parent s" using assms(1) by (rule fun_upd_idem)
  then have "s\<lparr>parent := (parent s)(x \<mapsto> r)\<rparr> = s" by simp
  with False assms(1) r show ?thesis by (subst find_uf.simps) simp
qed

lemma find_uf_again:
  assumes "root_of (parent s) x r" "find_uf s x = Some (s', res)"
  shows "res = Inr r \<and> compressed s s' \<and> find_uf s' x = Some (s', Inr r)"
proof -
  from find_uf_root_of[OF assms(1)] assms(2) have
    1: "res = Inr r" "compressed s s'" "parent s' x = Some r" by auto
  have "parent s r = Some r" using assms(1) by (rule root_of_is_root)
  then have "parent s' r = Some r" using compressed_is_root[OF 1(2)] by simp
  with 1(3) have "find_uf s' x = Some (s', Inr r)" by (rule find_uf_flat)
  with 1 show ?thesis by simp
qed

lemma root_of_no_cycle: "root_of par x r \<Longrightarrow> (x, x) \<notin> (parent_rel par)\<^sup>+"
proof (induction rule: root_of.induct)
  case (root r)
  show ?case
  proof
    assume "(r, r) \<in> (parent_rel par)\<^sup>+"
    then obtain z where "(z, r) \<in> parent_rel par" by (auto dest: tranclD2)
    with root show False by (auto simp: parent_rel_def)
  qed
next
  case (step x p r)
  show ?case
  proof
    assume "(x, x) \<in> (parent_rel par)\<^sup>+"
    then obtain z where z: "(x, z) \<in> (parent_rel par)\<^sup>*" "(z, x) \<in> parent_rel par"
      by (auto dest: tranclD2)
    with step.hyps have "z = p" by (auto simp: parent_rel_def)
    with z have "(p, p) \<in> (parent_rel par)\<^sup>+" by auto
    with step.IH show False by simp
  qed
qed

lemma uf_valid_acyclic:
  assumes "uf_valid V s"
  shows "acyclic (parent_rel (parent s))"
  unfolding acyclic_def
proof (intro allI notI)
  fix x assume c: "(x, x) \<in> (parent_rel (parent s))\<^sup>+"
  then obtain z where "(z, x) \<in> parent_rel (parent s)" by (auto dest: tranclD2)
  then have "x \<in> dom (parent s)" by (auto simp: parent_rel_def)
  with assms have "\<exists>r \<in> V. root_of (parent s) x r" unfolding uf_valid_def by blast
  then obtain r where "root_of (parent s) x r" by blast
  then have "(x, x) \<notin> (parent_rel (parent s))\<^sup>+" by (rule root_of_no_cycle)
  with c show False by simp
qed

lemma uf_valid_unique_root:
  assumes "uf_valid V s" "v \<in> V"
  shows "\<exists>!r. r \<in> V \<and> root_of (parent s) v r"
proof -
  from assms have "\<exists>r \<in> V. root_of (parent s) v r" unfolding uf_valid_def by blast
  then obtain r where r: "r \<in> V" "root_of (parent s) v r" by blast
  show ?thesis
  proof (rule ex1I[of _ r])
    show "r \<in> V \<and> root_of (parent s) v r" using r by simp
  next
    fix q assume "q \<in> V \<and> root_of (parent s) v q"
    then show "q = r" using r(2) root_of_unique by fastforce
  qed
qed

lemma union_uf_rank:
  assumes v: "uf_valid V s" and u: "union_uf s x y = Some (s', res)"
  shows "rank s' = rank s \<or>
         (\<exists>rx ry k. rx \<noteq> ry \<and> root_of (parent s) x rx \<and> root_of (parent s) y ry \<and>
                     rank s rx = Some k \<and> rank s ry = Some k \<and>
                     rank s' = (rank s)(rx \<mapsto> k + 1) \<and> res = Inr True)"
proof (cases "x \<in> V")
  case False
  with v have "parent s x = None" by (auto simp: uf_valid_def)
  then have "find_uf s x = Some (s, Inl KeyError)" by (rule find_uf_unknown)
  then have "union_uf s x y = Some (s, Inl KeyError)" by (simp add: union_uf_def)
  with u show ?thesis by simp
next
  case x: True
  show ?thesis
  proof (cases "y \<in> V")
    case False
    from find_uf_valid[OF v x] obtain s1 rx where
      1: "find_uf s x = Some (s1, Inr rx)" "compressed s s1" by auto
    have v1: "uf_valid V s1" using 1(2) v by (rule compressed_valid)
    with False have "parent s1 y = None" by (auto simp: uf_valid_def)
    then have "find_uf s1 y = Some (s1, Inl KeyError)" by (rule find_uf_unknown)
    with 1 have "union_uf s x y = Some (s1, Inl KeyError)" by (simp add: union_uf_def)
    with u 1(2) show ?thesis by (simp add: compressed_def)
  next
    case y: True
    from union_uf_valid_args[OF v x y] obtain s2 rx ry kx ky where
      c: "compressed s s2" and rx: "root_of (parent s) x rx" and ry: "root_of (parent s) y ry"
      and k: "rank s rx = Some kx" "rank s ry = Some ky"
      and u2: "union_uf s x y =
             Some (if rx = ry then (s2, Inr False)
                   else if kx < ky then (s2\<lparr>parent := (parent s2)(rx \<mapsto> ry)\<rparr>, Inr True)
                   else if kx > ky then (s2\<lparr>parent := (parent s2)(ry \<mapsto> rx)\<rparr>, Inr True)
                   else (s2\<lparr>parent := (parent s2)(ry \<mapsto> rx),
                            rank := (rank s2)(rx \<mapsto> kx + 1)\<rparr>, Inr True))"
      by auto
    have r2: "rank s2 = rank s" using c by (rule compressed_rank)
    show ?thesis
    proof (cases "rx = ry \<or> kx < ky \<or> kx > ky")
      case True
      with u u2 r2 have "rank s' = rank s" by (auto split: if_splits)
      then show ?thesis by simp
    next
      case False
      then have e: "rx \<noteq> ry" "ky = kx" by auto
      with u u2 r2 have "rank s' = (rank s)(rx \<mapsto> kx + 1)" "res = Inr True" by auto
      with e rx ry k have "rx \<noteq> ry \<and> root_of (parent s) x rx \<and> root_of (parent s) y ry \<and>
                     rank s rx = Some kx \<and> rank s ry = Some kx \<and>
                     rank s' = (rank s)(rx \<mapsto> kx + 1) \<and> res = Inr True" by simp
      then show ?thesis by blast
    qed
  qed
qed

lemma reachable_uf_ejemplo: "reachable {1, 2, 3, 4} uf_ejemplo"
proof -
  let ?p0 = "\<lambda>x::nat. if x \<in> {1, 2, 3, 4} then Some x else None"
  let ?r0 = "\<lambda>x::nat. if x \<in> {1, 2, 3, 4} then Some (0::int) else None"
  let ?s1 = "\<lparr>parent = ?p0(2 \<mapsto> 1), rank = ?r0(1 \<mapsto> 1)\<rparr>"
  let ?s2 = "\<lparr>parent = ?p0(2 \<mapsto> 1, 4 \<mapsto> 3), rank = ?r0(1 \<mapsto> 1, 3 \<mapsto> 1)\<rparr>"
  have 0: "reachable {1, 2, 3, 4} (UnionFind_init {1, 2, 3, 4::nat})" by (rule reachable.init)
  have "union_uf (UnionFind_init {1, 2, 3, 4::nat}) 1 2 = Some (?s1, Inr True)"
    by (simp add: union_uf_def find_uf.simps UnionFind_init_def)
  with 0 have 1: "reachable {1, 2, 3, 4} ?s1" by (rule reachable.union)
  have "union_uf ?s1 3 4 = Some (?s2, Inr True)"
    by (simp add: union_uf_def find_uf.simps)
  with 1 have 2: "reachable {1, 2, 3, 4} ?s2" by (rule reachable.union)
  have "union_uf ?s2 1 3 = Some (uf_ejemplo, Inr True)"
    by (simp add: union_uf_def find_uf.simps uf_ejemplo_def)
  with 2 show ?thesis by (rule reachable.union)
qed

lemma find_uf_ejemplo_4:
  "find_uf uf_ejemplo 4 = Some (uf_ejemplo\<lparr>parent := (parent uf_ejemplo)(4 \<mapsto> 1)\<rparr>, Inr 1)"
  by (simp add: find_uf.simps uf_ejemplo_def)

lemma union_uf_ejemplo_4_4:
  "union_uf uf_ejemplo 4 4 = Some (uf_ejemplo\<lparr>parent := (parent uf_ejemplo)(4 \<mapsto> 1)\<rparr>, Inr False)"
  by (simp add: union_uf_def find_uf.simps uf_ejemplo_def)

section \<open>Properties of the union-find structure\<close>

text \<open>
  C7: in every reachable object and for every vertex \<open>v\<close> of the initial set, \<open>find(v)\<close>
  returns the root \<open>r\<close> of \<open>v\<close>, which is still a root after the call, and a second
  \<open>find(v)\<close> right after it returns the same \<open>r\<close> and leaves the parent and the rank
  dictionaries as the first call left them.
\<close>

theorem find_uf_twice:
  assumes "reachable V s" and "v \<in> V"
  shows "\<exists>s1 s2 r. find_uf s v = Some (s1, Inr r) \<and>
           r \<in> V \<and> root_of (parent s) v r \<and> root_of (parent s1) v r \<and>
           parent s1 r = Some r \<and>
           find_uf s1 v = Some (s2, Inr r) \<and> parent s2 = parent s1 \<and> rank s2 = rank s1"
proof -
  have val: "uf_valid V s" using assms(1) by (rule reachable_valid)
  from find_uf_valid[OF val assms(2)] obtain s1 r where
    1: "root_of (parent s) v r" "find_uf s v = Some (s1, Inr r)"
    and rV: "r \<in> V" and c: "compressed s s1" by auto
  from find_uf_again[OF 1] have 2: "find_uf s1 v = Some (s1, Inr r)" by simp
  have 3: "root_of (parent s1) v r" using 1(1) compressed_root_of[OF c] by simp
  then have 4: "parent s1 r = Some r" by (rule root_of_is_root)
  from 1 2 3 4 rV show ?thesis by (intro exI[of _ s1] exI[of _ r]) simp
qed

theorem find_uf_twice_witness:
  "reachable {1, 2, 3, 4} uf_ejemplo \<and> (4::nat) \<in> {1, 2, 3, 4} \<and>
   (\<exists>s1 s2. find_uf uf_ejemplo 4 = Some (s1, Inr 1) \<and>
       root_of (parent uf_ejemplo) 4 1 \<and> root_of (parent s1) 4 1 \<and>
       parent s1 1 = Some 1 \<and>
       find_uf s1 4 = Some (s2, Inr 1) \<and> parent s2 = parent s1 \<and> rank s2 = rank s1)"
proof -
  from find_uf_twice[OF reachable_uf_ejemplo, of 4] obtain s1 s2 r where
    t: "find_uf uf_ejemplo 4 = Some (s1, Inr r)"
       "root_of (parent uf_ejemplo) 4 r" "root_of (parent s1) 4 r" "parent s1 r = Some r"
       "find_uf s1 4 = Some (s2, Inr r)" "parent s2 = parent s1" "rank s2 = rank s1"
    by auto
  from t(1) find_uf_ejemplo_4 have "r = 1" by simp
  with t reachable_uf_ejemplo show ?thesis by auto
qed

text \<open>
  C8, as stated, fails: \<open>union(a, a)\<close> starts with \<open>find(a)\<close>, which compresses the
  path of \<open>a\<close>. In the example object the parent of 4 is 3, and after \<open>union(4, 4)\<close> it
  is 1.
\<close>

theorem union_uf_self_changes_parent:
  "reachable {1, 2, 3, 4} uf_ejemplo \<and> (4::nat) \<in> {1, 2, 3, 4} \<and>
   parent uf_ejemplo 4 = Some 3 \<and>
   union_uf uf_ejemplo 4 4 =
     Some (uf_ejemplo\<lparr>parent := (parent uf_ejemplo)(4 \<mapsto> 1)\<rparr>, Inr False)"
  using reachable_uf_ejemplo union_uf_ejemplo_4_4 by (simp add: uf_ejemplo_def)

text \<open>
  C8, amended: in every reachable object and for every vertex \<open>a\<close> of the initial set,
  \<open>union(a, a)\<close> returns \<open>False\<close> and leaves the rank dictionary unchanged; the object
  it leaves is the one \<open>find(a)\<close> leaves, so the parent dictionary changes by path
  compression only and every vertex keeps its root; when the parent of \<open>a\<close> is a root
  (\<open>a\<close> itself or another vertex) nothing changes at all.
\<close>

theorem union_uf_self:
  assumes "reachable V s" and "a \<in> V"
  shows "\<exists>s' r. union_uf s a a = Some (s', Inr False) \<and> find_uf s a = Some (s', Inr r) \<and>
           rank s' = rank s \<and>
           (\<forall>v q. root_of (parent s') v q \<longleftrightarrow> root_of (parent s) v q) \<and>
           (\<forall>p. parent s a = Some p \<and> parent s p = Some p \<longrightarrow> s' = s)"
proof -
  have val: "uf_valid V s" using assms(1) by (rule reachable_valid)
  from find_uf_valid[OF val assms(2)] obtain s1 r where
    1: "root_of (parent s) a r" "find_uf s a = Some (s1, Inr r)" by auto
  from find_uf_again[OF 1] have
    2: "compressed s s1" "find_uf s1 a = Some (s1, Inr r)" by simp_all
  have u: "union_uf s a a = Some (s1, Inr False)"
    by (simp add: union_uf_def 1(2) 2(2))
  have rk: "rank s1 = rank s" using 2(1) by (rule compressed_rank)
  have ro: "\<forall>v q. root_of (parent s1) v q \<longleftrightarrow> root_of (parent s) v q"
    using compressed_root_of[OF 2(1)] by simp
  have fl: "\<forall>p. parent s a = Some p \<and> parent s p = Some p \<longrightarrow> s1 = s"
  proof (intro allI impI)
    fix p assume "parent s a = Some p \<and> parent s p = Some p"
    then have "find_uf s a = Some (s, Inr p)" by (simp add: find_uf_flat)
    with 1(2) show "s1 = s" by simp
  qed
  from u 1(2) rk ro fl show ?thesis by (intro exI[of _ s1] exI[of _ r]) simp
qed

theorem union_uf_self_witness:
  "reachable {1, 2, 3, 4} uf_ejemplo \<and> (3::nat) \<in> {1, 2, 3, 4} \<and>
   parent uf_ejemplo 3 = Some 1 \<and> parent uf_ejemplo 1 = Some 1 \<and>
   union_uf uf_ejemplo 3 3 = Some (uf_ejemplo, Inr False)"
proof -
  have p: "parent uf_ejemplo 3 = Some 1 \<and> parent uf_ejemplo 1 = Some 1"
    by (simp add: uf_ejemplo_def)
  from union_uf_self[OF reachable_uf_ejemplo, of 3] obtain s' where
    "union_uf uf_ejemplo 3 3 = Some (s', Inr False)"
    "\<forall>p. parent uf_ejemplo 3 = Some p \<and> parent uf_ejemplo p = Some p \<longrightarrow> s' = uf_ejemplo"
    by auto
  with p have "union_uf uf_ejemplo 3 3 = Some (uf_ejemplo, Inr False)" by auto
  with p reachable_uf_ejemplo show ?thesis by simp
qed

text \<open>
  C9: in every object reachable from \<open>UnionFind(V)\<close> by calls of \<open>find\<close> and \<open>union\<close>,
  every vertex of \<open>V\<close> leads through the parent links to exactly one root and the
  parent links have no cycle; every further call of \<open>find\<close> or \<open>union\<close> returns;
  \<open>find\<close> leaves the ranks as they are, and \<open>union\<close> either leaves them as they are or
  adds one to the rank of one root, and this only when it merges two different roots
  of equal rank.
\<close>

theorem reachable_invariant:
  assumes "reachable V s"
  shows "(\<forall>v \<in> V. \<exists>!r. r \<in> V \<and> root_of (parent s) v r) \<and>
         acyclic (parent_rel (parent s)) \<and>
         (\<forall>x. \<exists>s' res. find_uf s x = Some (s', res) \<and> rank s' = rank s) \<and>
         (\<forall>x y. \<exists>s' res. union_uf s x y = Some (s', res) \<and>
            (rank s' = rank s \<or>
             (\<exists>rx ry k. rx \<noteq> ry \<and> root_of (parent s) x rx \<and> root_of (parent s) y ry \<and>
                 rank s rx = Some k \<and> rank s ry = Some k \<and>
                 rank s' = (rank s)(rx \<mapsto> k + 1) \<and> res = Inr True)))"
proof (intro conjI ballI allI)
  have val: "uf_valid V s" using assms by (rule reachable_valid)
  show "acyclic (parent_rel (parent s))" using val by (rule uf_valid_acyclic)
  {
    fix v assume "v \<in> V"
    with val show "\<exists>!r. r \<in> V \<and> root_of (parent s) v r" by (rule uf_valid_unique_root)
  }
  {
    fix x
    from find_uf_total[OF val, of x] obtain s' res where
      f: "find_uf s x = Some (s', res)" "compressed s s'" by auto
    from f(2) have "rank s' = rank s" by (rule compressed_rank)
    with f(1) show "\<exists>s' res. find_uf s x = Some (s', res) \<and> rank s' = rank s" by simp
  }
  {
    fix x y
    from union_uf_total[OF val, of x y] obtain s' res where
      u: "union_uf s x y = Some (s', res)" by auto
    from union_uf_rank[OF val u] u
    show "\<exists>s' res. union_uf s x y = Some (s', res) \<and>
            (rank s' = rank s \<or>
             (\<exists>rx ry k. rx \<noteq> ry \<and> root_of (parent s) x rx \<and> root_of (parent s) y ry \<and>
                 rank s rx = Some k \<and> rank s ry = Some k \<and>
                 rank s' = (rank s)(rx \<mapsto> k + 1) \<and> res = Inr True))"
      by (intro exI[of _ s'] exI[of _ res]) simp
  }
qed

theorem reachable_invariant_witness:
  "reachable {1, 2, 3, 4} uf_ejemplo \<and> (4::nat) \<in> {1, 2, 3, 4} \<and>
   (\<exists>!r. r \<in> {1, 2, 3, 4} \<and> root_of (parent uf_ejemplo) 4 r) \<and>
   acyclic (parent_rel (parent uf_ejemplo)) \<and>
   (\<exists>s' res. find_uf uf_ejemplo 4 = Some (s', res) \<and> rank s' = rank uf_ejemplo)"
  using reachable_invariant[OF reachable_uf_ejemplo] reachable_uf_ejemplo
  by simp

section \<open>The effect of print_componentes\<close>

lemma flat_at_root_of:
  assumes "parent s n = Some r" "parent s r = Some r"
  shows "root_of (parent s) n r"
proof (cases "r = n")
  case True
  with assms show ?thesis by (simp add: root_of.root)
next
  case False
  have "root_of (parent s) r r" using assms(2) by (rule root_of.root)
  with assms(1) False show ?thesis by (rule root_of.step)
qed

lemma compressed_flat_at:
  assumes c: "compressed s s'" and f: "flat_at s n"
  shows "flat_at s' n"
proof -
  from f obtain r where r: "parent s n = Some r" "parent s r = Some r"
    by (auto simp: flat_at_def)
  from c have "parent s' n = parent s n \<or>
      (\<exists>q. parent s' n = Some q \<and> q \<noteq> n \<and> root_of (parent s) n q)"
    by (simp add: compressed_def)
  then obtain q where q: "parent s' n = Some q" "root_of (parent s) n q"
    using r flat_at_root_of[OF r] by auto
  have "parent s q = Some q" using q(2) by (rule root_of_is_root)
  then have "parent s' q = Some q" using compressed_is_root[OF c] by simp
  with q(1) show ?thesis by (auto simp: flat_at_def)
qed

lemma print_componentes_valid:
  assumes "uf_valid V s" "set ns \<subseteq> V"
  shows "\<exists>s'. print_componentes s ns = Some (s', Inr ()) \<and> compressed s s' \<and>
           (\<forall>n \<in> set ns. flat_at s' n)"
  using assms
proof (induction ns arbitrary: s)
  case Nil
  then show ?case by (simp add: compressed_refl)
next
  case (Cons n ns)
  from Cons.prems have n: "n \<in> V" and ns: "set ns \<subseteq> V" by auto
  from find_uf_valid[OF Cons.prems(1) n] obtain s1 r where
    1: "root_of (parent s) n r" "find_uf s n = Some (s1, Inr r)" "compressed s s1"
       "parent s1 n = Some r" by auto
  have v1: "uf_valid V s1" using 1(3) Cons.prems(1) by (rule compressed_valid)
  from Cons.IH[OF v1 ns] obtain s' where
    2: "print_componentes s1 ns = Some (s', Inr ())" "compressed s1 s'"
       "\<forall>n \<in> set ns. flat_at s' n" by auto
  have "parent s r = Some r" using 1(1) by (rule root_of_is_root)
  then have "parent s1 r = Some r" using compressed_is_root[OF 1(3)] by simp
  with 1(4) have "flat_at s1 n" by (auto simp: flat_at_def)
  with 2(2) have fn: "flat_at s' n" by (rule compressed_flat_at)
  have c: "compressed s s'" using 1(3) 2(2) by (rule compressed_trans)
  have "print_componentes s (n # ns) = Some (s', Inr ())" using 1(2) 2(1) by simp
  with c fn 2(3) show ?case by (intro exI[of _ s']) simp
qed

lemma flat_unique:
  assumes c1: "compressed s s1" and c2: "compressed s s2"
    and f: "\<forall>n \<in> dom (parent s). flat_at s1 n \<and> flat_at s2 n"
  shows "s1 = s2"
proof -
  have "parent s1 n = parent s2 n" for n
  proof (cases "n \<in> dom (parent s)")
    case False
    then have "n \<notin> dom (parent s1)" "n \<notin> dom (parent s2)"
      using compressed_dom[OF c1] compressed_dom[OF c2] by simp_all
    then show ?thesis by (simp add: domIff)
  next
    case True
    with f have "flat_at s1 n" "flat_at s2 n" by blast+
    then obtain r1 r2 where
      r1: "parent s1 n = Some r1" "parent s1 r1 = Some r1" and
      r2: "parent s2 n = Some r2" "parent s2 r2 = Some r2"
      unfolding flat_at_def by blast
    have "root_of (parent s) n r1"
      using flat_at_root_of[OF r1] compressed_root_of[OF c1] by simp
    moreover have "root_of (parent s) n r2"
      using flat_at_root_of[OF r2] compressed_root_of[OF c2] by simp
    ultimately have "r1 = r2" by (rule root_of_unique)
    with r1 r2 show ?thesis by simp
  qed
  then have "parent s1 = parent s2" by (rule ext)
  moreover have "rank s1 = rank s2" using c1 c2 by (simp add: compressed_def)
  ultimately show ?thesis by simp
qed

lemma print_componentes_orden:
  assumes v: "uf_valid V s" and o1: "set o1 = V" and o2: "set o2 = V"
  shows "print_componentes s o1 = print_componentes s o2"
proof -
  from print_componentes_valid[OF v, of o1] o1 obtain s1 where
    1: "print_componentes s o1 = Some (s1, Inr ())" "compressed s s1" "\<forall>n \<in> V. flat_at s1 n"
    by auto
  from print_componentes_valid[OF v, of o2] o2 obtain s2 where
    2: "print_componentes s o2 = Some (s2, Inr ())" "compressed s s2" "\<forall>n \<in> V. flat_at s2 n"
    by auto
  have "dom (parent s) = V" using v by (simp add: uf_valid_def)
  with 1(3) 2(3) have "\<forall>n \<in> dom (parent s). flat_at s1 n \<and> flat_at s2 n" by simp
  with 1(2) 2(2) have "s1 = s2" by (rule flat_unique)
  with 1(1) 2(1) show ?thesis by simp
qed

section \<open>Merging two components\<close>

lemma roots_compressed: "compressed s s' \<Longrightarrow> roots s' = roots s"
  using compressed_is_root[of s s'] by (auto simp: roots_def)

lemma same_root_compressed: "compressed s s' \<Longrightarrow> same_root s' x y = same_root s x y"
  by (simp add: same_root_def compressed_root_of)

lemma roots_link:
  assumes "parent s a = Some a" "a \<noteq> b"
  shows "roots (s\<lparr>parent := (parent s)(a \<mapsto> b)\<rparr>) = roots s - {a}"
    and "roots (s\<lparr>parent := (parent s)(a \<mapsto> b), rank := rk\<rparr>) = roots s - {a}"
  using assms by (auto simp: roots_def)

lemma roots_subset: "uf_valid V s \<Longrightarrow> roots s \<subseteq> V"
  by (auto simp: roots_def uf_valid_def)

lemma union_uf_merge:
  assumes v: "uf_valid V s" and x: "x \<in> V" and y: "y \<in> V"
    and rx: "root_of (parent s) x rx" and ry: "root_of (parent s) y ry" and ne: "rx \<noteq> ry"
  shows "\<exists>s' a b. union_uf s x y = Some (s', Inr True) \<and>
           ((a = rx \<and> b = ry) \<or> (a = ry \<and> b = rx)) \<and>
           uf_valid V s' \<and> roots s' = roots s - {a} \<and>
           (\<forall>z r. root_of (parent s) z r \<longrightarrow> root_of (parent s') z (if r = a then b else r))"
proof -
  from union_uf_valid_args[OF v x y] obtain s2 rx' ry' kx ky where
    c: "compressed s s2" and rx': "root_of (parent s) x rx'" and ry': "root_of (parent s) y ry'"
    and V: "rx' \<in> V" "ry' \<in> V"
    and u: "union_uf s x y =
           Some (if rx' = ry' then (s2, Inr False)
                 else if kx < ky then (s2\<lparr>parent := (parent s2)(rx' \<mapsto> ry')\<rparr>, Inr True)
                 else if kx > ky then (s2\<lparr>parent := (parent s2)(ry' \<mapsto> rx')\<rparr>, Inr True)
                 else (s2\<lparr>parent := (parent s2)(ry' \<mapsto> rx'),
                          rank := (rank s2)(rx' \<mapsto> kx + 1)\<rparr>, Inr True))"
    by auto
  have e: "rx' = rx" "ry' = ry"
    using root_of_unique[OF rx' rx] root_of_unique[OF ry' ry] by simp_all
  have v2: "uf_valid V s2" using c v by (rule compressed_valid)
  have px: "parent s2 rx = Some rx"
    using compressed_is_root[OF c] root_of_is_root[OF rx] by simp
  have py: "parent s2 ry = Some ry"
    using compressed_is_root[OF c] root_of_is_root[OF ry] by simp
  have ne': "ry \<noteq> rx" using ne by simp
  have r2: "roots s2 = roots s" using c by (rule roots_compressed)
  have fw: "root_of (parent s) z r \<Longrightarrow> root_of ((parent s2)(a \<mapsto> b)) z (if r = a then b else r)"
    if "parent s2 a = Some a" "a \<noteq> b" "parent s2 b = Some b" for a b z r
  proof -
    assume "root_of (parent s) z r"
    then have "root_of (parent s2) z r" using compressed_root_of[OF c] by simp
    with that show ?thesis by (rule root_of_link)
  qed
  show ?thesis
  proof (cases "kx < ky")
    case True
    let ?s' = "s2\<lparr>parent := (parent s2)(rx \<mapsto> ry)\<rparr>"
    have "union_uf s x y = Some (?s', Inr True)" using u e ne True by simp
    moreover have "uf_valid V ?s'" using uf_valid_link(1)[OF v2 px py ne] V e by simp
    moreover have "roots ?s' = roots s - {rx}" using roots_link(1)[OF px ne] r2 by simp
    moreover have "\<forall>z r. root_of (parent s) z r \<longrightarrow>
        root_of (parent ?s') z (if r = rx then ry else r)"
      using fw[OF px ne py] by simp
    ultimately show ?thesis by (intro exI[of _ ?s'] exI[of _ rx] exI[of _ ry]) simp
  next
    case False
    let ?p = "(parent s2)(ry \<mapsto> rx)"
    obtain s' where s': "union_uf s x y = Some (s', Inr True)" "parent s' = ?p"
      "s' = s2\<lparr>parent := ?p\<rparr> \<or> s' = s2\<lparr>parent := ?p, rank := (rank s2)(rx \<mapsto> kx + 1)\<rparr>"
      using u e ne False by (cases "kx > ky") simp_all
    have "uf_valid V s'"
      using s'(3) uf_valid_link[OF v2 py px ne', of rx] V e by auto
    moreover have "roots s' = roots s - {ry}"
      using s'(3) roots_link[OF py ne'] r2 by auto
    moreover have "\<forall>z r. root_of (parent s) z r \<longrightarrow>
        root_of (parent s') z (if r = ry then rx else r)"
      using fw[OF py ne' px] s'(2) by simp
    ultimately show ?thesis using s'(1) by (intro exI[of _ s'] exI[of _ ry] exI[of _ rx]) simp
  qed
qed

lemma same_root_refl:
  assumes "uf_valid V s" "x \<in> V"
  shows "same_root s x x"
proof -
  from assms have "\<exists>r \<in> V. root_of (parent s) x r" unfolding uf_valid_def by blast
  then obtain r where "root_of (parent s) x r" by blast
  then show ?thesis unfolding same_root_def by blast
qed

lemma same_root_sym: "same_root s x y \<Longrightarrow> same_root s y x"
  unfolding same_root_def by blast

lemma same_root_iff:
  assumes "root_of (parent s) x rx" "root_of (parent s) y ry"
  shows "same_root s x y \<longleftrightarrow> rx = ry"
proof
  assume "same_root s x y"
  then obtain r where r: "root_of (parent s) x r" "root_of (parent s) y r"
    unfolding same_root_def by blast
  have "r = rx" using r(1) assms(1) by (rule root_of_unique)
  moreover have "r = ry" using r(2) assms(2) by (rule root_of_unique)
  ultimately show "rx = ry" by simp
next
  assume "rx = ry"
  with assms show "same_root s x y" unfolding same_root_def by blast
qed

lemma same_root_trans:
  assumes "same_root s x y" "same_root s y z"
  shows "same_root s x z"
proof -
  from assms obtain r q where r: "root_of (parent s) x r" "root_of (parent s) y r"
    and q: "root_of (parent s) y q" "root_of (parent s) z q"
    unfolding same_root_def by blast
  have "r = q" using r(2) q(1) by (rule root_of_unique)
  with r(1) q(2) show ?thesis unfolding same_root_def by blast
qed

lemma same_root_dom:
  assumes "same_root s x y"
  shows "x \<in> dom (parent s) \<and> y \<in> dom (parent s)"
proof -
  from assms obtain r where "root_of (parent s) x r" "root_of (parent s) y r"
    unfolding same_root_def by blast
  then show ?thesis by (simp add: root_of_dom)
qed

lemma merge_same_root:
  assumes v: "uf_valid V s" and v': "uf_valid V s'"
    and ab: "(a = ru \<and> b = rv) \<or> (a = rv \<and> b = ru)"
    and ru: "root_of (parent s) u ru" and rv: "root_of (parent s) w rv"
    and fw: "\<forall>z r. root_of (parent s) z r \<longrightarrow> root_of (parent s') z (if r = a then b else r)"
  shows "same_root s x y \<Longrightarrow> same_root s' x y"
    and "same_root s' u w"
    and "same_root s' x y \<Longrightarrow>
           same_root s x y \<or> (same_root s x u \<and> same_root s w y) \<or>
           (same_root s x w \<and> same_root s u y)"
proof -
  let ?f = "\<lambda>r. if r = a then b else r"
  have F: "root_of (parent s) z r \<Longrightarrow> root_of (parent s') z (?f r)" for z r
    using fw by blast
  {
    assume "same_root s x y"
    then obtain r where r: "root_of (parent s) x r" "root_of (parent s) y r"
      unfolding same_root_def by blast
    have "root_of (parent s') x (?f r)" "root_of (parent s') y (?f r)"
      using F[OF r(1)] F[OF r(2)] by simp_all
    then show "same_root s' x y" unfolding same_root_def by blast
  }
  have "?f ru = ?f rv" using ab by auto
  then show "same_root s' u w"
    using same_root_iff[OF F[OF ru] F[OF rv]] by simp
  {
    assume s: "same_root s' x y"
    then have "x \<in> dom (parent s')" "y \<in> dom (parent s')"
      using same_root_dom by fastforce+
    then have "x \<in> V" "y \<in> V" using v' by (simp_all add: uf_valid_def)
    with v have "\<exists>r \<in> V. root_of (parent s) x r" "\<exists>r \<in> V. root_of (parent s) y r"
      unfolding uf_valid_def by blast+
    then obtain rx ry where rx: "root_of (parent s) x rx" and ry: "root_of (parent s) y ry"
      by blast
    from s have e: "?f rx = ?f ry"
      using same_root_iff[OF F[OF rx] F[OF ry]] by simp
    have 1: "same_root s x y \<longleftrightarrow> rx = ry" using rx ry by (rule same_root_iff)
    have 2: "same_root s x u \<longleftrightarrow> rx = ru" using rx ru by (rule same_root_iff)
    have 3: "same_root s w y \<longleftrightarrow> rv = ry" using rv ry by (rule same_root_iff)
    have 4: "same_root s x w \<longleftrightarrow> rx = rv" using rx rv by (rule same_root_iff)
    have 5: "same_root s u y \<longleftrightarrow> ru = ry" using ru ry by (rule same_root_iff)
    from e ab show "same_root s x y \<or> (same_root s x u \<and> same_root s w y) \<or>
           (same_root s x w \<and> same_root s u y)"
      unfolding 1 2 3 4 5 by (auto split: if_splits)
  }
qed

lemma avance_compressed:
  assumes a: "avance V st e stp" and c: "compressed (uf stp) uf4"
  shows "avance V st e (stp\<lparr>uf := uf4\<rparr>)"
proof -
  have "uf_valid V uf4" using c a by (auto simp: avance_def intro: compressed_valid)
  moreover have "roots uf4 = roots (uf stp)" using c by (rule roots_compressed)
  moreover have "same_root uf4 x y = same_root (uf stp) x y" for x y
    using c by (rule same_root_compressed)
  moreover have "arbol_de (stp\<lparr>uf := uf4\<rparr>) = arbol_de stp" by (simp add: arbol_de_def)
  ultimately show ?thesis using a by (simp add: avance_def)
qed

section \<open>The addition of weights and the list objects\<close>

lemma sumar_error:
  assumes "sumar x y = Inl err"
  shows "err = OverflowError \<and> (x = NaN \<or> y = NaN)"
  using assms by (cases x; cases y) (auto split: if_splits)

lemma sumar_enteros:
  assumes "x \<noteq> NaN" "y \<noteq> NaN"
  shows "\<exists>c. sumar x y = Inr (Entero c)"
  using assms by (cases x; cases y) auto

lemma sumar_valor:
  assumes "sumar x y = Inr c" "x \<noteq> NaN" "y \<noteq> NaN"
  shows "c \<noteq> NaN"
  using assms by (cases x; cases y) auto

lemma marco_refl: "marco st st"
  by (simp add: marco_def)

lemma marco_trans: "marco st st1 \<Longrightarrow> marco st1 st2 \<Longrightarrow> marco st st2"
  by (simp add: marco_def)

lemma marco_uf: "marco st stp \<Longrightarrow> marco st (stp\<lparr>uf := x\<rparr>)"
  by (simp add: marco_def)

section \<open>One iteration of the loop\<close>

lemma probar_arista_pre:
  assumes v: "uf_valid V (uf st)" and u: "u \<in> V" and w: "v \<in> V" and fin: "finite V"
  shows "\<exists>stp. marco st stp \<and> uf_valid V (uf stp) \<and>
           ((coste_total st = NaN \<or> w = NaN) \<and>
            (\<forall>orden. probar_arista orden st (u, v, w) = Some (stp, Inl OverflowError)) \<or>
            avance V st (u, v, w) stp \<and>
            (coste_total st \<noteq> NaN \<and> w \<noteq> NaN \<longrightarrow> coste_total stp \<noteq> NaN) \<and>
            (\<forall>orden. probar_arista orden st (u, v, w) =
              (case print_componentes (uf stp) orden of
                 None \<Rightarrow> None
               | Some (uf4, Inl err) \<Rightarrow> Some (stp\<lparr>uf := uf4\<rparr>, Inl err)
               | Some (uf4, Inr _) \<Rightarrow> Some (stp\<lparr>uf := uf4\<rparr>, Inr ()))))"
proof -
  from find_uf_valid[OF v u] obtain s1 ru where
    1: "root_of (parent (uf st)) u ru" "find_uf (uf st) u = Some (s1, Inr ru)"
       "compressed (uf st) s1" by auto
  have v1: "uf_valid V s1" using 1(3) v by (rule compressed_valid)
  from find_uf_valid[OF v1 w] obtain s2 rv where
    2: "root_of (parent s1) v rv" "find_uf s1 v = Some (s2, Inr rv)" "compressed s1 s2"
    by auto
  have c: "compressed (uf st) s2" using 1(3) 2(3) by (rule compressed_trans)
  have v2: "uf_valid V s2" using c v by (rule compressed_valid)
  have rv: "root_of (parent (uf st)) v rv" using 2(1) compressed_root_of[OF 1(3)] by simp
  have sr: "same_root (uf st) u v \<longleftrightarrow> ru = rv" using 1(1) rv by (rule same_root_iff)
  have r2: "roots s2 = roots (uf st)" using c by (rule roots_compressed)
  have s2: "same_root s2 x y = same_root (uf st) x y" for x y
    using c by (rule same_root_compressed)
  let ?st1 = "st\<lparr>uf := s2, traza := traza st @ [Paso (u, v, w) ru rv (ru \<noteq> rv)]\<rparr>"
  show ?thesis
  proof (cases "ru = rv")
    case True
    have "avance V st (u, v, w) ?st1"
      using True v2 r2 sr by (simp add: avance_def s2 arbol_de_def)
    moreover have "\<forall>orden. probar_arista orden st (u, v, w) =
              (case print_componentes (uf ?st1) orden of
                 None \<Rightarrow> None
               | Some (uf4, Inl err) \<Rightarrow> Some (?st1\<lparr>uf := uf4\<rparr>, Inl err)
               | Some (uf4, Inr _) \<Rightarrow> Some (?st1\<lparr>uf := uf4\<rparr>, Inr ()))"
      using True
      by (simp add: probar_arista_def 1(2) 2(2) Let_def split: option.splits sum.splits)
    moreover have "marco st ?st1" by (simp add: marco_def)
    moreover have "uf_valid V (uf ?st1)" using v2 by simp
    ultimately show ?thesis by (intro exI[of _ ?st1]) simp
  next
    case False
    have ru2: "root_of (parent s2) u ru" using 1(1) compressed_root_of[OF c] by simp
    have rv2: "root_of (parent s2) v rv" using rv compressed_root_of[OF c] by simp
    from union_uf_merge[OF v2 u w ru2 rv2 False] obtain s3 a b where
      3: "union_uf s2 u v = Some (s3, Inr True)"
         "(a = ru \<and> b = rv) \<or> (a = rv \<and> b = ru)"
         "uf_valid V s3" "roots s3 = roots s2 - {a}"
         "\<forall>z r. root_of (parent s2) z r \<longrightarrow> root_of (parent s3) z (if r = a then b else r)"
      by auto
    let ?st2 = "?st1\<lparr>uf := s3,
                      memoria := append_lista (arbol ?st1) (u, v, w) (memoria ?st1)\<rparr>"
    have m2: "marco st ?st2" by (simp add: marco_def append_lista_def)
    have v3: "uf_valid V (uf ?st2)" using 3(3) by simp
    have ad: "length (arbol_de ?st2) = Suc (length (arbol_de st))"
      by (simp add: arbol_de_def append_lista_def)
    have ain: "a \<in> roots s2"
      using 3(2) root_of_is_root[OF ru2] root_of_is_root[OF rv2] by (auto simp: roots_def)
    have "finite (roots s2)" using roots_subset[OF v2] fin by (rule finite_subset)
    then have "Suc (card (roots s2 - {a})) = card (roots s2)" using ain by (rule card_Suc_Diff1)
    then have cd: "card (roots s3) + 1 = card (roots s2)"
      unfolding 3(4) by simp
    note m = merge_same_root[OF v2 3(3) 3(2) ru2 rv2 3(5)]
    have m1: "\<forall>x y. same_root s2 x y \<longrightarrow> same_root s3 x y" using m(1) by blast
    have m3: "\<forall>x y. same_root s3 x y \<longrightarrow>
           same_root s2 x y \<or> (same_root s2 x u \<and> same_root s2 v y) \<or>
           (same_root s2 x v \<and> same_root s2 u y)" using m(3) by blast
    have av2: "avance V st (u, v, w) ?st2"
      using False 3(3) cd r2 sr m1 m(2) m3 ad by (simp add: avance_def s2)
    show ?thesis
    proof (cases "sumar (coste_total st) w")
      case (Inl err)
      from sumar_error[OF Inl] have e: "err = OverflowError" "coste_total st = NaN \<or> w = NaN"
        by simp_all
      have "\<forall>orden. probar_arista orden st (u, v, w) = Some (?st2, Inl OverflowError)"
        using False Inl e(1)
        by (simp add: probar_arista_def 1(2) 2(2) 3(1) Let_def)
      with m2 v3 e(2) show ?thesis by (intro exI[of _ ?st2]) simp
    next
      case (Inr c)
      let ?st3 = "?st2\<lparr>coste_total := c\<rparr>"
      have "arbol_de ?st3 = arbol_de ?st2" by (simp add: arbol_de_def)
      with av2 have av3: "avance V st (u, v, w) ?st3" by (simp add: avance_def)
      have m3': "marco st ?st3" using m2 by (simp add: marco_def)
      have nn: "coste_total st \<noteq> NaN \<and> w \<noteq> NaN \<longrightarrow> coste_total ?st3 \<noteq> NaN"
        using sumar_valor[OF Inr] by simp
      have "\<forall>orden. probar_arista orden st (u, v, w) =
              (case print_componentes (uf ?st3) orden of
                 None \<Rightarrow> None
               | Some (uf4, Inl err) \<Rightarrow> Some (?st3\<lparr>uf := uf4\<rparr>, Inl err)
               | Some (uf4, Inr _) \<Rightarrow> Some (?st3\<lparr>uf := uf4\<rparr>, Inr ()))"
        using False Inr
        by (simp add: probar_arista_def 1(2) 2(2) 3(1) Let_def split: option.splits sum.splits)
      with av3 m3' nn 3(3) show ?thesis by (intro exI[of _ ?st3]) simp
    qed
  qed
qed

lemma probar_arista_valid:
  assumes v: "uf_valid V (uf st)" and u: "u \<in> V" and w: "v \<in> V" and fin: "finite V"
    and o: "set orden \<subseteq> V"
  shows "\<exists>st' out. probar_arista orden st (u, v, w) = Some (st', out) \<and> marco st st' \<and>
           ((coste_total st = NaN \<or> w = NaN) \<and> out = Inl OverflowError \<or>
            out = Inr () \<and> avance V st (u, v, w) st' \<and>
            (coste_total st \<noteq> NaN \<and> w \<noteq> NaN \<longrightarrow> coste_total st' \<noteq> NaN))"
proof -
  from probar_arista_pre[OF v u w fin, of w] obtain stp where
    m: "marco st stp" and vp: "uf_valid V (uf stp)" and
    d: "(coste_total st = NaN \<or> w = NaN) \<and>
            (\<forall>orden. probar_arista orden st (u, v, w) = Some (stp, Inl OverflowError)) \<or>
            avance V st (u, v, w) stp \<and>
            (coste_total st \<noteq> NaN \<and> w \<noteq> NaN \<longrightarrow> coste_total stp \<noteq> NaN) \<and>
            (\<forall>orden. probar_arista orden st (u, v, w) =
              (case print_componentes (uf stp) orden of
                 None \<Rightarrow> None
               | Some (uf4, Inl err) \<Rightarrow> Some (stp\<lparr>uf := uf4\<rparr>, Inl err)
               | Some (uf4, Inr _) \<Rightarrow> Some (stp\<lparr>uf := uf4\<rparr>, Inr ())))"
    by auto
  from d show ?thesis
  proof
    assume "(coste_total st = NaN \<or> w = NaN) \<and>
      (\<forall>orden. probar_arista orden st (u, v, w) = Some (stp, Inl OverflowError))"
    with m show ?thesis
      by (intro exI[of _ stp] exI[of _ "Inl OverflowError"]) simp
  next
    assume "avance V st (u, v, w) stp \<and>
            (coste_total st \<noteq> NaN \<and> w \<noteq> NaN \<longrightarrow> coste_total stp \<noteq> NaN) \<and>
            (\<forall>orden. probar_arista orden st (u, v, w) =
              (case print_componentes (uf stp) orden of
                 None \<Rightarrow> None
               | Some (uf4, Inl err) \<Rightarrow> Some (stp\<lparr>uf := uf4\<rparr>, Inl err)
               | Some (uf4, Inr _) \<Rightarrow> Some (stp\<lparr>uf := uf4\<rparr>, Inr ())))"
    then have a: "avance V st (u, v, w) stp"
      and n: "coste_total st \<noteq> NaN \<and> w \<noteq> NaN \<longrightarrow> coste_total stp \<noteq> NaN"
      and p: "\<forall>orden. probar_arista orden st (u, v, w) =
              (case print_componentes (uf stp) orden of
                 None \<Rightarrow> None
               | Some (uf4, Inl err) \<Rightarrow> Some (stp\<lparr>uf := uf4\<rparr>, Inl err)
               | Some (uf4, Inr _) \<Rightarrow> Some (stp\<lparr>uf := uf4\<rparr>, Inr ()))"
      by simp_all
    from print_componentes_valid[OF vp o] obtain uf4 where
      4: "print_componentes (uf stp) orden = Some (uf4, Inr ())" "compressed (uf stp) uf4"
      by auto
    have "probar_arista orden st (u, v, w) = Some (stp\<lparr>uf := uf4\<rparr>, Inr ())"
      using p 4(1) by simp
    moreover have "avance V st (u, v, w) (stp\<lparr>uf := uf4\<rparr>)"
      using a 4(2) by (rule avance_compressed)
    moreover have "marco st (stp\<lparr>uf := uf4\<rparr>)" using m by (rule marco_uf)
    ultimately show ?thesis using n
      by (intro exI[of _ "stp\<lparr>uf := uf4\<rparr>"] exI[of _ "Inr ()"]) simp
  qed
qed

lemma probar_arista_orden:
  assumes v: "uf_valid V (uf st)" and u: "u \<in> V" and w: "v \<in> V" and fin: "finite V"
    and o1: "set o1 = V" and o2: "set o2 = V"
  shows "probar_arista o1 st (u, v, w) = probar_arista o2 st (u, v, w)"
proof -
  from probar_arista_pre[OF v u w fin, of w] obtain stp where
    vp: "uf_valid V (uf stp)" and
    d: "(\<forall>orden. probar_arista orden st (u, v, w) = Some (stp, Inl OverflowError)) \<or>
            (\<forall>orden. probar_arista orden st (u, v, w) =
              (case print_componentes (uf stp) orden of
                 None \<Rightarrow> None
               | Some (uf4, Inl err) \<Rightarrow> Some (stp\<lparr>uf := uf4\<rparr>, Inl err)
               | Some (uf4, Inr _) \<Rightarrow> Some (stp\<lparr>uf := uf4\<rparr>, Inr ())))"
    by auto
  have "print_componentes (uf stp) o1 = print_componentes (uf stp) o2"
    using vp o1 o2 by (rule print_componentes_orden)
  with d show ?thesis by auto
qed

section \<open>The loop over the sorted edges\<close>

lemma adyacentes_Cons:
  "adyacentes ((u, v, w) # es) = insert (u, v) (insert (v, u) (adyacentes es))"
  by (auto simp: adyacentes_def)

lemma recorrido_Nil: "uf_valid V (uf st) \<Longrightarrow> recorrido V st [] st"
  by (auto simp: recorrido_def)

lemma recorrido_Cons:
  assumes a: "avance V st (u, v, w) st1" and r: "recorrido V st1 es st'"
  shows "recorrido V st ((u, v, w) # es) st'"
proof -
  let ?S = "{(x, y). same_root (uf st) x y}"
  let ?S1 = "{(x, y). same_root (uf st1) x y}"
  let ?A = "adyacentes es"
  let ?T = "?S \<union> adyacentes ((u, v, w) # es)"
  have a5: "\<And>x y. same_root (uf st) x y \<Longrightarrow> same_root (uf st1) x y"
    and a6: "same_root (uf st1) u v"
    and a7: "\<And>x y. same_root (uf st1) x y \<Longrightarrow>
         same_root (uf st) x y \<or> (same_root (uf st) x u \<and> same_root (uf st) v y) \<or>
         (same_root (uf st) x v \<and> same_root (uf st) u y)"
    using a by (simp_all add: avance_def)
  have r5: "\<And>x y. same_root (uf st1) x y \<Longrightarrow> same_root (uf st') x y"
    and r6: "\<And>e. e \<in> set es \<Longrightarrow> same_root (uf st') (fst e) (fst (snd e))"
    and r7: "\<And>x y. same_root (uf st') x y \<Longrightarrow> (x, y) \<in> (?S1 \<union> ?A)\<^sup>*"
    using r by (simp_all add: recorrido_def)
  have uv: "(u, v) \<in> ?T" "(v, u) \<in> ?T" by (simp_all add: adyacentes_Cons)
  have "?S1 \<subseteq> ?T\<^sup>*"
  proof
    fix p assume "p \<in> ?S1"
    then obtain x y where p: "p = (x, y)" "same_root (uf st1) x y" by auto
    from a7[OF p(2)] show "p \<in> ?T\<^sup>*"
    proof (elim disjE conjE)
      assume "same_root (uf st) x y"
      then have "(x, y) \<in> ?T" by simp
      then show ?thesis unfolding p(1) by (rule r_into_rtrancl)
    next
      assume "same_root (uf st) x u" "same_root (uf st) v y"
      then have "(x, u) \<in> ?T" "(v, y) \<in> ?T" by simp_all
      with uv(1) have "(x, y) \<in> ?T\<^sup>*" by (meson rtrancl.rtrancl_into_rtrancl r_into_rtrancl)
      then show ?thesis unfolding p(1) .
    next
      assume "same_root (uf st) x v" "same_root (uf st) u y"
      then have "(x, v) \<in> ?T" "(u, y) \<in> ?T" by simp_all
      with uv(2) have "(x, y) \<in> ?T\<^sup>*" by (meson rtrancl.rtrancl_into_rtrancl r_into_rtrancl)
      then show ?thesis unfolding p(1) .
    qed
  qed
  moreover have "?A \<subseteq> ?T\<^sup>*" by (auto simp: adyacentes_Cons)
  ultimately have "?S1 \<union> ?A \<subseteq> ?T\<^sup>*" by simp
  then have sub: "(?S1 \<union> ?A)\<^sup>* \<subseteq> ?T\<^sup>*" by (rule rtrancl_subset_rtrancl)
  have c7: "\<forall>x y. same_root (uf st') x y \<longrightarrow> (x, y) \<in> ?T\<^sup>*"
    using r7 sub by blast
  have c5: "\<forall>x y. same_root (uf st) x y \<longrightarrow> same_root (uf st') x y"
    using a5 r5 by blast
  have c6: "\<forall>e \<in> set ((u, v, w) # es). same_root (uf st') (fst e) (fst (snd e))"
    using r5[OF a6] r6 by simp
  have c1: "uf_valid V (uf st')"
    "map arista (traza st') = map arista (traza st) @ (u, v, w) # es"
    "length (arbol_de st') + card (roots (uf st')) =
       length (arbol_de st) + card (roots (uf st))"
    using a r by (simp_all add: avance_def recorrido_def)
  show ?thesis unfolding recorrido_def using c1 c5 c6 c7 by blast
qed


lemma kruskal_loop_valid:
  assumes "uf_valid V (uf st)" and fin: "finite V" and o: "set orden \<subseteq> V"
    and "\<forall>e \<in> set es. fst e \<in> V \<and> fst (snd e) \<in> V"
  shows "\<exists>st' out. kruskal_loop orden st es = Some (st', out) \<and> marco st st' \<and>
           ((coste_total st = NaN \<or> NaN \<in> peso ` set es) \<and> out = Inl OverflowError \<or>
            out = Inr () \<and> recorrido V st es st' \<and>
            (coste_total st \<noteq> NaN \<and> NaN \<notin> peso ` set es \<longrightarrow> coste_total st' \<noteq> NaN))"
  using assms(1,4)
proof (induction es arbitrary: st)
  case Nil
  then show ?case by (simp add: recorrido_Nil marco_refl)
next
  case (Cons e es)
  obtain u v w where e: "e = (u, v, w)" by (cases e) auto
  with Cons.prems have uv: "u \<in> V" "v \<in> V" and es: "\<forall>e \<in> set es. fst e \<in> V \<and> fst (snd e) \<in> V"
    by simp_all
  have pw: "peso e = w" by (simp add: e peso_def)
  from probar_arista_valid[OF Cons.prems(1) uv fin o, of w] obtain st1 out1 where
    1: "probar_arista orden st (u, v, w) = Some (st1, out1)" "marco st st1" and
    d: "(coste_total st = NaN \<or> w = NaN) \<and> out1 = Inl OverflowError \<or>
        out1 = Inr () \<and> avance V st (u, v, w) st1 \<and>
        (coste_total st \<noteq> NaN \<and> w \<noteq> NaN \<longrightarrow> coste_total st1 \<noteq> NaN)"
    by auto
  from d show ?case
  proof
    assume "(coste_total st = NaN \<or> w = NaN) \<and> out1 = Inl OverflowError"
    then have n: "coste_total st = NaN \<or> w = NaN" and o1: "out1 = Inl OverflowError"
      by simp_all
    have "kruskal_loop orden st (e # es) = Some (st1, Inl OverflowError)"
      using e 1(1) o1 by simp
    with 1(2) n pw show ?thesis
      by (intro exI[of _ st1] exI[of _ "Inl OverflowError"]) auto
  next
    assume "out1 = Inr () \<and> avance V st (u, v, w) st1 \<and>
        (coste_total st \<noteq> NaN \<and> w \<noteq> NaN \<longrightarrow> coste_total st1 \<noteq> NaN)"
    then have o1: "out1 = Inr ()" and a: "avance V st (u, v, w) st1"
      and n: "coste_total st \<noteq> NaN \<and> w \<noteq> NaN \<longrightarrow> coste_total st1 \<noteq> NaN"
      by simp_all
    have v1: "uf_valid V (uf st1)" using a by (simp add: avance_def)
    from Cons.IH[OF v1 es] obtain st' out where
      2: "kruskal_loop orden st1 es = Some (st', out)" "marco st1 st'" and
      d2: "(coste_total st1 = NaN \<or> NaN \<in> peso ` set es) \<and> out = Inl OverflowError \<or>
           out = Inr () \<and> recorrido V st1 es st' \<and>
           (coste_total st1 \<noteq> NaN \<and> NaN \<notin> peso ` set es \<longrightarrow> coste_total st' \<noteq> NaN)"
      by auto
    have k: "kruskal_loop orden st (e # es) = Some (st', out)" using e 1(1) o1 2(1) by simp
    have m: "marco st st'" using 1(2) 2(2) by (rule marco_trans)
    from d2 show ?thesis
    proof
      assume "(coste_total st1 = NaN \<or> NaN \<in> peso ` set es) \<and> out = Inl OverflowError"
      with n pw have "(coste_total st = NaN \<or> NaN \<in> peso ` set (e # es)) \<and>
          out = Inl OverflowError" by auto
      with k m show ?thesis by (intro exI[of _ st'] exI[of _ out]) simp
    next
      assume "out = Inr () \<and> recorrido V st1 es st' \<and>
           (coste_total st1 \<noteq> NaN \<and> NaN \<notin> peso ` set es \<longrightarrow> coste_total st' \<noteq> NaN)"
      then have o2: "out = Inr ()" and r: "recorrido V st1 es st'"
        and n2: "coste_total st1 \<noteq> NaN \<and> NaN \<notin> peso ` set es \<longrightarrow> coste_total st' \<noteq> NaN"
        by simp_all
      have "recorrido V st (e # es) st'" unfolding e using a r by (rule recorrido_Cons)
      moreover have "coste_total st \<noteq> NaN \<and> NaN \<notin> peso ` set (e # es) \<longrightarrow>
          coste_total st' \<noteq> NaN" using n n2 pw by auto
      ultimately show ?thesis using k m o2 by (intro exI[of _ st'] exI[of _ out]) simp
    qed
  qed
qed

lemma kruskal_loop_orden:
  assumes "uf_valid V (uf st)" and fin: "finite V" and o1: "set o1 = V" and o2: "set o2 = V"
    and "\<forall>e \<in> set es. fst e \<in> V \<and> fst (snd e) \<in> V"
  shows "kruskal_loop o1 st es = kruskal_loop o2 st es"
  using assms(1,5)
proof (induction es arbitrary: st)
  case Nil
  show ?case by simp
next
  case (Cons e es)
  obtain u v w where e: "e = (u, v, w)" by (cases e) auto
  with Cons.prems have uv: "u \<in> V" "v \<in> V" and es: "\<forall>e \<in> set es. fst e \<in> V \<and> fst (snd e) \<in> V"
    by simp_all
  have sub: "set o1 \<subseteq> V" using o1 by simp
  from probar_arista_valid[OF Cons.prems(1) uv fin sub, of w] obtain st1 out1 where
    1: "probar_arista o1 st (u, v, w) = Some (st1, out1)" and
    d: "out1 = Inl OverflowError \<or> out1 = Inr () \<and> avance V st (u, v, w) st1"
    by auto
  have 2: "probar_arista o2 st (u, v, w) = Some (st1, out1)"
    using probar_arista_orden[OF Cons.prems(1) uv fin o1 o2, of w] 1(1) by simp
  from d show ?case
  proof
    assume "out1 = Inl OverflowError"
    with e 1 2 show ?thesis by simp
  next
    assume "out1 = Inr () \<and> avance V st (u, v, w) st1"
    then have o: "out1 = Inr ()" and a: "avance V st (u, v, w) st1" by simp_all
    have v1: "uf_valid V (uf st1)" using a by (simp add: avance_def)
    from Cons.IH[OF v1 es] show ?thesis using e 1 2 o by simp
  qed
qed

section \<open>The whole run of kruskal\<close>

lemma fold_nodos:
  "fold (\<lambda>(u, v, w) nodos. insert v (insert u nodos)) es S =
     S \<union> fst ` set es \<union> (\<lambda>e. fst (snd e)) ` set es"
  by (induction es arbitrary: S) (auto simp: case_prod_beta)

lemma nodos_de_set: "nodos_de es = fst ` set es \<union> (\<lambda>e. fst (snd e)) ` set es"
  by (simp add: nodos_de_def fold_nodos)

lemma finite_nodos_de: "finite (nodos_de es)"
  by (simp add: nodos_de_set)

lemma nodos_de_endpoints: "\<forall>e \<in> set es. fst e \<in> nodos_de es \<and> fst (snd e) \<in> nodos_de es"
  by (simp add: nodos_de_set)

lemma nodos_de_empty: "nodos_de es = {} \<longleftrightarrow> es = []"
  by (auto simp: nodos_de_set)


lemma set_insertar: "set (insertar key x ys) = insert x (set ys)"
  by (induction ys) auto

lemma set_ordenar: "set (foldr (insertar key) xs []) = set xs"
  by (induction xs) (simp_all add: set_insertar)



lemma set_aristas_ordenadas: "set (aristas_ordenadas es tipo) = set es"
  by (simp add: aristas_ordenadas_def sorted_py_def set_ordenar)


lemma adyacentes_cong: "set es = set es' \<Longrightarrow> adyacentes es = adyacentes es'"
  by (simp add: adyacentes_def)

lemma root_of_init: "root_of (parent (UnionFind_init V)) x r \<longleftrightarrow> x \<in> V \<and> r = x"
proof
  assume "root_of (parent (UnionFind_init V)) x r"
  then show "x \<in> V \<and> r = x"
    by (cases rule: root_of.cases) (auto simp: UnionFind_init_def split: if_splits)
next
  assume "x \<in> V \<and> r = x"
  then show "root_of (parent (UnionFind_init V)) x r"
    by (simp add: UnionFind_init_def root_of.root)
qed

lemma roots_init: "roots (UnionFind_init V) = V"
  by (auto simp: roots_def UnionFind_init_def)

lemma same_root_init: "same_root (UnionFind_init V) x y \<longleftrightarrow> x \<in> V \<and> y = x"
  by (auto simp: same_root_def root_of_init)

lemma roots_count:
  assumes v: "uf_valid V s" and fin: "finite V" and ne: "V \<noteq> {}"
  shows "1 \<le> card (roots s)"
    and "card (roots s) = 1 \<longleftrightarrow> (\<forall>x \<in> V. \<forall>y \<in> V. same_root s x y)"
proof -
  have sub: "roots s \<subseteq> V" using v by (rule roots_subset)
  then have fr: "finite (roots s)" using fin by (rule finite_subset)
  have has: "\<exists>r. r \<in> roots s \<and> root_of (parent s) x r" if "x \<in> V" for x
  proof -
    from v that have "\<exists>r \<in> V. root_of (parent s) x r" unfolding uf_valid_def by blast
    then obtain r where r: "root_of (parent s) x r" by blast
    then have "r \<in> roots s" by (simp add: roots_def root_of_is_root)
    with r show ?thesis by blast
  qed
  from ne obtain x0 where x0: "x0 \<in> V" by blast
  from has[OF x0] obtain r0 where r0: "r0 \<in> roots s" by blast
  then have "roots s \<noteq> {}" by blast
  with fr have "card (roots s) \<noteq> 0" by simp
  then show "1 \<le> card (roots s)" by simp
  show "card (roots s) = 1 \<longleftrightarrow> (\<forall>x \<in> V. \<forall>y \<in> V. same_root s x y)"
  proof
    assume "card (roots s) = 1"
    then obtain q where q: "roots s = {q}" by (auto simp: card_1_singleton_iff)
    show "\<forall>x \<in> V. \<forall>y \<in> V. same_root s x y"
    proof (intro ballI)
      fix x y assume "x \<in> V" "y \<in> V"
      from has[OF this(1)] has[OF this(2)] q
      have "root_of (parent s) x q" "root_of (parent s) y q" by auto
      then show "same_root s x y" unfolding same_root_def by blast
    qed
  next
    assume a: "\<forall>x \<in> V. \<forall>y \<in> V. same_root s x y"
    have "r = r0" if "r \<in> roots s" for r
    proof -
      from that r0 sub a have "same_root s r r0" by blast
      moreover have "root_of (parent s) r r" "root_of (parent s) r0 r0"
        using that r0 by (simp_all add: roots_def root_of.root)
      ultimately show ?thesis using same_root_iff by fastforce
    qed
    with r0 have "roots s = {r0}" by blast
    then show "card (roots s) = 1" by simp
  qed
qed


lemma kruskal_result:
  assumes o: "set orden = nodos_de (lista m a)"
  shows "\<exists>st out. kruskal orden m a tipo = Some (st, out) \<and>
           aristas st = a \<and> ordenadas st = libre m \<and> arbol st = Suc (libre m) \<and>
           lista (memoria st) (libre m) = aristas_ordenadas (lista m a) tipo \<and>
           (\<forall>r. r \<noteq> libre m \<and> r \<noteq> Suc (libre m) \<longrightarrow> lista (memoria st) r = lista m r) \<and>
           (NaN \<in> peso ` set (lista m a) \<and> out = Inl OverflowError \<or>
            out = Inr (arbol st, coste_total st) \<and>
            map arista (traza st) = aristas_ordenadas (lista m a) tipo \<and>
            uf_valid (nodos_de (lista m a)) (uf st) \<and>
            length (arbol_de st) + card (roots (uf st)) = card (nodos_de (lista m a)) \<and>
            (\<forall>x \<in> nodos_de (lista m a). \<forall>y.
               same_root (uf st) x y \<longleftrightarrow> (x, y) \<in> (adyacentes (lista m a))\<^sup>*))"
proof -
  let ?E = "lista m a"
  let ?V = "nodos_de ?E"
  let ?es = "aristas_ordenadas ?E tipo"
  have fin: "finite ?V" by (rule finite_nodos_de)
  have sub: "set orden \<subseteq> ?V" using o by simp
  have v0: "uf_valid ?V (UnionFind_init ?V)" by (rule UnionFind_init_valid)
  from print_componentes_valid[OF v0 sub] obtain uf1 where
    1: "print_componentes (UnionFind_init ?V) orden = Some (uf1, Inr ())"
       "compressed (UnionFind_init ?V) uf1" by auto
  let ?m2 = "m\<lparr>lista := (lista m)(libre m := ?es, Suc (libre m) := []),
                libre := Suc (Suc (libre m))\<rparr>"
  let ?st0 = "\<lparr>memoria = ?m2, aristas = a, ordenadas = libre m, uf = uf1,
               arbol = Suc (libre m), coste_total = Entero 0, traza = []\<rparr>"
  have v1: "uf_valid ?V (uf ?st0)" using 1(2) v0 by (simp add: compressed_valid)
  have ends: "\<forall>e \<in> set ?es. fst e \<in> ?V \<and> fst (snd e) \<in> ?V"
    using nodos_de_endpoints[of ?E] by (simp add: set_aristas_ordenadas)
  from kruskal_loop_valid[OF v1 fin sub ends] obtain st out where
    2: "kruskal_loop orden ?st0 ?es = Some (st, out)" "marco ?st0 st" and
    d: "(coste_total ?st0 = NaN \<or> NaN \<in> peso ` set ?es) \<and> out = Inl OverflowError \<or>
        out = Inr () \<and> recorrido ?V ?st0 ?es st \<and>
        (coste_total ?st0 \<noteq> NaN \<and> NaN \<notin> peso ` set ?es \<longrightarrow> coste_total st \<noteq> NaN)"
    by auto
  have k: "kruskal orden m a tipo =
      Some (st, case out of Inl err \<Rightarrow> Inl err | Inr _ \<Rightarrow> Inr (arbol st, coste_total st))"
    using 1(1) 2(1)
    by (simp add: kruskal_def nueva_lista_def Let_def split: sum.splits)
  have f: "aristas st = a" "ordenadas st = libre m" "arbol st = Suc (libre m)"
    "lista (memoria st) (libre m) = ?es"
    "\<forall>r. r \<noteq> libre m \<and> r \<noteq> Suc (libre m) \<longrightarrow> lista (memoria st) r = lista m r"
    using 2(2) by (simp_all add: marco_def)
  from d show ?thesis
  proof
    assume "(coste_total ?st0 = NaN \<or> NaN \<in> peso ` set ?es) \<and> out = Inl OverflowError"
    then have "NaN \<in> peso ` set ?E" "out = Inl OverflowError"
      by (simp_all add: set_aristas_ordenadas)
    with k f show ?thesis
      by (intro exI[of _ st] exI[of _ "Inl OverflowError"]) simp
  next
    assume "out = Inr () \<and> recorrido ?V ?st0 ?es st \<and>
        (coste_total ?st0 \<noteq> NaN \<and> NaN \<notin> peso ` set ?es \<longrightarrow> coste_total st \<noteq> NaN)"
    then have ok: "out = Inr ()" and rec: "recorrido ?V ?st0 ?es st" by simp_all
    have r0: "roots uf1 = ?V" using roots_compressed[OF 1(2)] by (simp add: roots_init)
    have s0: "same_root uf1 x y \<longleftrightarrow> x \<in> ?V \<and> y = x" for x y
      using same_root_compressed[OF 1(2)] by (simp add: same_root_init)
    have adj: "adyacentes ?es = adyacentes ?E"
      by (rule adyacentes_cong) (rule set_aristas_ordenadas)
    have a0: "arbol_de ?st0 = []" by (simp add: arbol_de_def)
    have r: "uf_valid ?V (uf st)" "map arista (traza st) = ?es"
      "length (arbol_de st) + card (roots (uf st)) = card ?V"
      using rec r0 a0 by (simp_all add: recorrido_def)
    have r6: "\<And>e. e \<in> set ?E \<Longrightarrow> same_root (uf st) (fst e) (fst (snd e))"
      and r7: "\<And>x y. same_root (uf st) x y \<Longrightarrow>
        (x, y) \<in> ({(x, y). same_root uf1 x y} \<union> adyacentes ?E)\<^sup>*"
      using rec by (simp_all add: recorrido_def set_aristas_ordenadas adj)
    have "{(x, y). same_root uf1 x y} \<union> adyacentes ?E \<subseteq> (adyacentes ?E)\<^sup>*"
      by (auto simp: s0)
    then have "({(x, y). same_root uf1 x y} \<union> adyacentes ?E)\<^sup>* \<subseteq> (adyacentes ?E)\<^sup>*"
      by (rule rtrancl_subset_rtrancl)
    with r7 have snd: "\<And>x y. same_root (uf st) x y \<Longrightarrow> (x, y) \<in> (adyacentes ?E)\<^sup>*"
      by blast
    have cmp: "same_root (uf st) x y" if "(x, y) \<in> (adyacentes ?E)\<^sup>*" "x \<in> ?V" for x y
      using that
    proof (induction rule: rtrancl_induct)
      case base
      with r(1) show ?case by (simp add: same_root_refl)
    next
      case (step y z)
      from step.hyps(2) obtain w where "(y, z, w) \<in> set ?E \<or> (z, y, w) \<in> set ?E"
        by (auto simp: adyacentes_def)
      then have "same_root (uf st) y z"
      proof
        assume "(y, z, w) \<in> set ?E"
        from r6[OF this] show ?thesis by simp
      next
        assume "(z, y, w) \<in> set ?E"
        from r6[OF this] show ?thesis by (simp add: same_root_sym)
      qed
      with step.IH[OF step.prems] show ?case by (rule same_root_trans)
    qed
    have "\<forall>x \<in> ?V. \<forall>y. same_root (uf st) x y \<longleftrightarrow> (x, y) \<in> (adyacentes ?E)\<^sup>*"
      using snd cmp by blast
    with k ok f r show ?thesis
      by (intro exI[of _ st] exI[of _ "Inr (arbol st, coste_total st)"]) simp
  qed
qed

lemma kruskal_orden:
  assumes o1: "set o1 = nodos_de (lista m a)" and o2: "set o2 = nodos_de (lista m a)"
  shows "kruskal o1 m a tipo = kruskal o2 m a tipo"
proof -
  let ?E = "lista m a"
  let ?V = "nodos_de ?E"
  let ?es = "aristas_ordenadas ?E tipo"
  have fin: "finite ?V" by (rule finite_nodos_de)
  have sub: "set o1 \<subseteq> ?V" using o1 by simp
  have v0: "uf_valid ?V (UnionFind_init ?V)" by (rule UnionFind_init_valid)
  from print_componentes_valid[OF v0 sub] obtain uf1 where
    1: "print_componentes (UnionFind_init ?V) o1 = Some (uf1, Inr ())"
       "compressed (UnionFind_init ?V) uf1" by auto
  have 2: "print_componentes (UnionFind_init ?V) o2 = Some (uf1, Inr ())"
    using print_componentes_orden[OF v0 o1 o2] 1(1) by simp
  let ?m2 = "m\<lparr>lista := (lista m)(libre m := ?es, Suc (libre m) := []),
                libre := Suc (Suc (libre m))\<rparr>"
  let ?st0 = "\<lparr>memoria = ?m2, aristas = a, ordenadas = libre m, uf = uf1,
               arbol = Suc (libre m), coste_total = Entero 0, traza = []\<rparr>"
  have v1: "uf_valid ?V (uf ?st0)" using 1(2) v0 by (simp add: compressed_valid)
  have ends: "\<forall>e \<in> set ?es. fst e \<in> ?V \<and> fst (snd e) \<in> ?V"
    using nodos_de_endpoints[of ?E] by (simp add: set_aristas_ordenadas)
  have "kruskal_loop o1 ?st0 ?es = kruskal_loop o2 ?st0 ?es"
    using v1 fin o1 o2 ends by (rule kruskal_loop_orden)
  then show ?thesis using 1(1) 2 by (simp add: kruskal_def nueva_lista_def Let_def)
qed

lemma kruskal_cuenta:
  assumes o: "set orden = nodos_de (lista m a)" and ne: "lista m a \<noteq> []"
  shows "\<exists>st out. kruskal orden m a tipo = Some (st, out) \<and>
           (NaN \<in> peso ` set (lista m a) \<and> out = Inl OverflowError \<or>
            out = Inr (arbol st, coste_total st) \<and>
            length (arbol_de st) + 1 \<le> card (nodos_de (lista m a)) \<and>
            (length (arbol_de st) + 1 = card (nodos_de (lista m a)) \<longleftrightarrow> conexo (lista m a)))"
proof -
  let ?E = "lista m a"
  let ?V = "nodos_de ?E"
  from kruskal_result[OF o, of tipo] obtain st out where
    k: "kruskal orden m a tipo = Some (st, out)" and
    d: "NaN \<in> peso ` set ?E \<and> out = Inl OverflowError \<or>
            out = Inr (arbol st, coste_total st) \<and>
            map arista (traza st) = aristas_ordenadas ?E tipo \<and>
            uf_valid ?V (uf st) \<and>
            length (arbol_de st) + card (roots (uf st)) = card ?V \<and>
            (\<forall>x \<in> ?V. \<forall>y. same_root (uf st) x y \<longleftrightarrow> (x, y) \<in> (adyacentes ?E)\<^sup>*)"
    by auto
  from d show ?thesis
  proof
    assume "NaN \<in> peso ` set ?E \<and> out = Inl OverflowError"
    with k show ?thesis by (intro exI[of _ st] exI[of _ out]) simp
  next
    assume "out = Inr (arbol st, coste_total st) \<and>
            map arista (traza st) = aristas_ordenadas ?E tipo \<and>
            uf_valid ?V (uf st) \<and>
            length (arbol_de st) + card (roots (uf st)) = card ?V \<and>
            (\<forall>x \<in> ?V. \<forall>y. same_root (uf st) x y \<longleftrightarrow> (x, y) \<in> (adyacentes ?E)\<^sup>*)"
    then have ok: "out = Inr (arbol st, coste_total st)"
      and v: "uf_valid ?V (uf st)"
      and c: "length (arbol_de st) + card (roots (uf st)) = card ?V"
      and s: "\<forall>x \<in> ?V. \<forall>y. same_root (uf st) x y \<longleftrightarrow> (x, y) \<in> (adyacentes ?E)\<^sup>*"
      by simp_all
    have fin: "finite ?V" by (rule finite_nodos_de)
    have nV: "?V \<noteq> {}" using ne by (simp add: nodos_de_empty)
    note rc = roots_count[OF v fin nV]
    have "conexo ?E \<longleftrightarrow> (\<forall>x \<in> ?V. \<forall>y \<in> ?V. same_root (uf st) x y)"
      unfolding conexo_def using s by blast
    with rc(2) have "conexo ?E \<longleftrightarrow> card (roots (uf st)) = 1" by simp
    with rc(1) c have "length (arbol_de st) + 1 \<le> card ?V \<and>
            (length (arbol_de st) + 1 = card ?V \<longleftrightarrow> conexo ?E)" by auto
    with k ok show ?thesis by (intro exI[of _ st] exI[of _ out]) simp
  qed
qed

section \<open>The order of the sorted edges\<close>






section \<open>The runs on the example inputs\<close>

lemma iteracion_orden_ejemplo: "iteracion_de orden_ejemplo (nodos_de grafo_ejemplo)"
  by (auto simp: iteracion_de_def orden_ejemplo_def nodos_de_def grafo_ejemplo_def)

lemma iteracion_orden_dos_componentes:
  "iteracion_de orden_dos_componentes (nodos_de grafo_dos_componentes)"
  by (auto simp: iteracion_de_def orden_dos_componentes_def nodos_de_def
      grafo_dos_componentes_def)

lemma iteracion_una_arista: "iteracion_de [''A'', ''B''] (nodos_de grafo_una_arista)"
  by (auto simp: iteracion_de_def nodos_de_def grafo_una_arista_def)

lemma iteracion_con_lazo: "iteracion_de [''A'', ''B'', ''C''] (nodos_de grafo_con_lazo)"
  by (auto simp: iteracion_de_def nodos_de_def grafo_con_lazo_def)


lemma iteracion_card: "iteracion_de orden S \<Longrightarrow> card S = length orden"
  using distinct_card[of orden] by (simp add: iteracion_de_def)

lemma card_nodos_ejemplos:
  "card (nodos_de grafo_ejemplo) = 6" "card (nodos_de grafo_dos_componentes) = 4"
  "card (nodos_de grafo_una_arista) = 2" "card (nodos_de grafo_con_lazo) = 3"
  using iteracion_card[OF iteracion_orden_ejemplo]
    iteracion_card[OF iteracion_orden_dos_componentes]
    iteracion_card[OF iteracion_una_arista] iteracion_card[OF iteracion_con_lazo]
  by (simp_all add: orden_ejemplo_def orden_dos_componentes_def)

lemma lista_memoria_con: "lista (memoria_con es) 0 = es" "0 < libre (memoria_con es)"
  by (simp_all add: memoria_con_def)

lemma aristas_ordenadas_ejemplo_max:
  "aristas_ordenadas grafo_ejemplo ''max'' =
     [(''D'', ''E'', Entero 11), (''B'', ''D'', Entero 10), (''B'', ''C'', Entero 5),
      (''A'', ''B'', Entero 4), (''C'', ''E'', Entero 4), (''C'', ''D'', Entero 3),
      (''A'', ''C'', Entero 2), (''D'', ''F'', Entero 2), (''E'', ''F'', Entero 1)]"
  by (simp add: aristas_ordenadas_def sorted_py_def grafo_ejemplo_def)

lemma aristas_ordenadas_ejemplo_min:
  "aristas_ordenadas grafo_ejemplo ''min'' =
     [(''E'', ''F'', Entero 1), (''A'', ''C'', Entero 2), (''D'', ''F'', Entero 2),
      (''C'', ''D'', Entero 3), (''A'', ''B'', Entero 4), (''C'', ''E'', Entero 4),
      (''B'', ''C'', Entero 5), (''B'', ''D'', Entero 10), (''D'', ''E'', Entero 11)]"
  by (simp add: aristas_ordenadas_def sorted_py_def grafo_ejemplo_def)

lemma kruskal_orden_ejemplo_max:
  assumes "lista m a = grafo_ejemplo"
  shows "\<exists>st. kruskal orden_ejemplo m a ''max'' = Some (st, Inr (arbol st, coste_total st)) \<and>
           arbol_de st = [(''D'', ''E'', Entero 11), (''B'', ''D'', Entero 10),
                          (''B'', ''C'', Entero 5), (''A'', ''B'', Entero 4),
                          (''D'', ''F'', Entero 2)] \<and>
           coste_total st = Entero 32"
  unfolding kruskal_def assms aristas_ordenadas_ejemplo_max
  by (simp add: orden_ejemplo_def nodos_de_def grafo_ejemplo_def UnionFind_init_def
      probar_arista_def union_uf_def find_uf.simps nueva_lista_def append_lista_def
      arbol_de_def)

lemma kruskal_orden_ejemplo_min:
  assumes "lista m a = grafo_ejemplo"
  shows "\<exists>st. kruskal orden_ejemplo m a ''min'' = Some (st, Inr (arbol st, coste_total st)) \<and>
           arbol_de st = [(''E'', ''F'', Entero 1), (''A'', ''C'', Entero 2),
                          (''D'', ''F'', Entero 2), (''C'', ''D'', Entero 3),
                          (''A'', ''B'', Entero 4)] \<and>
           coste_total st = Entero 12"
  unfolding kruskal_def assms aristas_ordenadas_ejemplo_min
  by (simp add: orden_ejemplo_def nodos_de_def grafo_ejemplo_def UnionFind_init_def
      probar_arista_def union_uf_def find_uf.simps nueva_lista_def append_lista_def
      arbol_de_def)

lemma kruskal_orden_dos_componentes:
  assumes "lista m a = grafo_dos_componentes"
  shows "\<exists>st. kruskal orden_dos_componentes m a tipo =
                Some (st, Inr (arbol st, coste_total st)) \<and>
           arbol_de st =
             (if tipo = ''min'' then [(''A'', ''B'', Entero 1), (''C'', ''D'', Entero 2)]
              else [(''C'', ''D'', Entero 2), (''A'', ''B'', Entero 1)]) \<and>
           coste_total st = Entero 3"
  unfolding kruskal_def assms
  by (simp add: aristas_ordenadas_def sorted_py_def orden_dos_componentes_def
      nodos_de_def grafo_dos_componentes_def UnionFind_init_def
      probar_arista_def union_uf_def find_uf.simps nueva_lista_def append_lista_def
      arbol_de_def)

lemma kruskal_lista_vacia:
  assumes "lista m a = []"
  shows "\<exists>st. kruskal [] m a tipo = Some (st, Inr (arbol st, coste_total st)) \<and>
           arbol_de st = [] \<and> coste_total st = Entero 0"
  unfolding kruskal_def assms
  by (simp add: aristas_ordenadas_def sorted_py_def nodos_de_def nueva_lista_def arbol_de_def)

lemma kruskal_una_arista:
  assumes "lista m a = grafo_una_arista"
  shows "\<exists>st. kruskal [''A'', ''B''] m a ''min'' = Some (st, Inr (arbol st, coste_total st)) \<and>
           arbol_de st = [(''A'', ''B'', Entero 1)] \<and> coste_total st = Entero 1"
  unfolding kruskal_def assms
  by (simp add: aristas_ordenadas_def sorted_py_def
      nodos_de_def grafo_una_arista_def UnionFind_init_def
      probar_arista_def union_uf_def find_uf.simps nueva_lista_def append_lista_def
      arbol_de_def)

lemma kruskal_con_lazo:
  assumes "lista m a = grafo_con_lazo"
  shows "\<exists>st. kruskal [''A'', ''B'', ''C''] m a ''min'' =
                Some (st, Inr (arbol st, coste_total st)) \<and>
           arbol_de st = [(''A'', ''B'', Entero 1)] \<and> coste_total st = Entero 1"
  unfolding kruskal_def assms
  by (simp add: aristas_ordenadas_def sorted_py_def
      nodos_de_def grafo_con_lazo_def UnionFind_init_def
      probar_arista_def union_uf_def find_uf.simps nueva_lista_def append_lista_def
      arbol_de_def)



lemma devuelto_Some:
  "kruskal orden m a tipo = Some (st, Inr (arbol st, coste_total st)) \<Longrightarrow>
   devuelto (kruskal orden m a tipo) = Some (Inr (arbol_de st, coste_total st))"
  by (simp add: devuelto_def arbol_de_def)

section \<open>Properties of kruskal\<close>

text \<open>
  C1, as stated, fails: on \<open>grafo_ejemplo\<close> in mode \<open>max\<close> the run accepts the five
  edges D-E, B-D, B-C, A-B and D-F, and their total cost is 32, not 35.
\<close>

theorem kruskal_max_ejemplo_no_es_35:
  "iteracion_de orden_ejemplo (nodos_de grafo_ejemplo) \<and>
   devuelto (kruskal orden_ejemplo (memoria_con grafo_ejemplo) 0 ''max'') =
     Some (Inr ([(''D'', ''E'', Entero 11), (''B'', ''D'', Entero 10),
                 (''B'', ''C'', Entero 5), (''A'', ''B'', Entero 4),
                 (''D'', ''F'', Entero 2)], Entero 32))"
proof -
  from kruskal_orden_ejemplo_max[OF lista_memoria_con(1)] obtain st where
    "kruskal orden_ejemplo (memoria_con grafo_ejemplo) 0 ''max'' =
       Some (st, Inr (arbol st, coste_total st))"
    "arbol_de st = [(''D'', ''E'', Entero 11), (''B'', ''D'', Entero 10),
                    (''B'', ''C'', Entero 5), (''A'', ''B'', Entero 4),
                    (''D'', ''F'', Entero 2)]"
    "coste_total st = Entero 32" by auto
  with devuelto_Some[OF this(1)] iteracion_orden_ejemplo show ?thesis by simp
qed

text \<open>
  C1, amended: on \<open>grafo_ejemplo\<close> in mode \<open>max\<close>, whatever the order in which the set
  of vertices is iterated, \<open>kruskal\<close> returns five accepted edges, D-E, B-D, B-C, A-B
  and D-F in this order, and the total cost 32.
\<close>

theorem kruskal_max_ejemplo:
  assumes "lista m a = grafo_ejemplo" and "iteracion_de orden (nodos_de grafo_ejemplo)"
  shows "\<exists>st. kruskal orden m a ''max'' = Some (st, Inr (arbol st, coste_total st)) \<and>
           arbol_de st = [(''D'', ''E'', Entero 11), (''B'', ''D'', Entero 10),
                          (''B'', ''C'', Entero 5), (''A'', ''B'', Entero 4),
                          (''D'', ''F'', Entero 2)] \<and>
           length (arbol_de st) = 5 \<and> coste_total st = Entero 32"
proof -
  have o: "set orden = nodos_de (lista m a)" using assms by (simp add: iteracion_de_def)
  have o': "set orden_ejemplo = nodos_de (lista m a)"
    using iteracion_orden_ejemplo assms(1) by (simp add: iteracion_de_def)
  have "kruskal orden m a ''max'' = kruskal orden_ejemplo m a ''max''"
    using o o' by (rule kruskal_orden)
  with kruskal_orden_ejemplo_max[OF assms(1)] show ?thesis by auto
qed

theorem kruskal_max_ejemplo_witness:
  "lista (memoria_con grafo_ejemplo) 0 = grafo_ejemplo \<and>
   iteracion_de [''F'', ''E'', ''D'', ''C'', ''B'', ''A''] (nodos_de grafo_ejemplo) \<and>
   (\<exists>st. kruskal [''F'', ''E'', ''D'', ''C'', ''B'', ''A''] (memoria_con grafo_ejemplo) 0 ''max'' =
            Some (st, Inr (arbol st, coste_total st)) \<and>
          length (arbol_de st) = 5 \<and> coste_total st = Entero 32)"
proof -
  have i: "iteracion_de [''F'', ''E'', ''D'', ''C'', ''B'', ''A''] (nodos_de grafo_ejemplo)"
    by (auto simp: iteracion_de_def nodos_de_def grafo_ejemplo_def)
  from kruskal_max_ejemplo[OF lista_memoria_con(1) i] i show ?thesis
    by (auto simp: lista_memoria_con)
qed

text \<open>
  C4: on \<open>grafo_ejemplo\<close> in mode \<open>min\<close>, whatever the order in which the set of
  vertices is iterated, \<open>kruskal\<close> returns exactly five accepted edges (E-F, A-C, D-F,
  C-D and A-B) and the total cost 12.
\<close>

theorem kruskal_min_ejemplo:
  assumes "lista m a = grafo_ejemplo" and "iteracion_de orden (nodos_de grafo_ejemplo)"
  shows "\<exists>st. kruskal orden m a ''min'' = Some (st, Inr (arbol st, coste_total st)) \<and>
           arbol_de st = [(''E'', ''F'', Entero 1), (''A'', ''C'', Entero 2),
                          (''D'', ''F'', Entero 2), (''C'', ''D'', Entero 3),
                          (''A'', ''B'', Entero 4)] \<and>
           length (arbol_de st) = 5 \<and> coste_total st = Entero 12"
proof -
  have o: "set orden = nodos_de (lista m a)" using assms by (simp add: iteracion_de_def)
  have o': "set orden_ejemplo = nodos_de (lista m a)"
    using iteracion_orden_ejemplo assms(1) by (simp add: iteracion_de_def)
  have "kruskal orden m a ''min'' = kruskal orden_ejemplo m a ''min''"
    using o o' by (rule kruskal_orden)
  with kruskal_orden_ejemplo_min[OF assms(1)] show ?thesis by auto
qed

theorem kruskal_min_ejemplo_witness:
  "lista (memoria_con grafo_ejemplo) 0 = grafo_ejemplo \<and>
   iteracion_de [''F'', ''E'', ''D'', ''C'', ''B'', ''A''] (nodos_de grafo_ejemplo) \<and>
   (\<exists>st. kruskal [''F'', ''E'', ''D'', ''C'', ''B'', ''A''] (memoria_con grafo_ejemplo) 0 ''min'' =
            Some (st, Inr (arbol st, coste_total st)) \<and>
          length (arbol_de st) = 5 \<and> coste_total st = Entero 12)"
proof -
  have i: "iteracion_de [''F'', ''E'', ''D'', ''C'', ''B'', ''A''] (nodos_de grafo_ejemplo)"
    by (auto simp: iteracion_de_def nodos_de_def grafo_ejemplo_def)
  from kruskal_min_ejemplo[OF lista_memoria_con(1) i] i show ?thesis
    by (auto simp: lista_memoria_con)
qed

text \<open>
  C2, as stated, fails: for the empty list of edges \<open>kruskal\<close> raises nothing and
  returns the empty tree with total cost 0.
\<close>

theorem kruskal_vacio_no_falla:
  "devuelto (kruskal [] (memoria_con ([] :: string arista list)) 0 ''min'') =
     Some (Inr ([], Entero 0))"
proof -
  from kruskal_lista_vacia[OF lista_memoria_con(1)] obtain st where
    "kruskal [] (memoria_con ([] :: string arista list)) 0 ''min'' =
       Some (st, Inr (arbol st, coste_total st))"
    "arbol_de st = []" "coste_total st = Entero 0" by blast
  with devuelto_Some[OF this(1)] show ?thesis by simp
qed

text \<open>
  C2, amended: for the empty list of edges, in either mode, \<open>kruskal\<close> returns the
  empty list of accepted edges and the total cost 0; no error is raised. (The set of
  vertices is empty, so its only order of iteration is the empty one.)
\<close>

theorem kruskal_vacio:
  assumes "lista m a = []"
  shows "\<exists>st. kruskal [] m a tipo = Some (st, Inr (arbol st, coste_total st)) \<and>
           arbol_de st = [] \<and> coste_total st = Entero 0"
  using assms by (rule kruskal_lista_vacia)

theorem kruskal_vacio_witness:
  "lista (memoria_con ([] :: string arista list)) 0 = [] \<and>
   (\<exists>st. kruskal [] (memoria_con ([] :: string arista list)) 0 ''max'' =
            Some (st, Inr (arbol st, coste_total st)) \<and>
          arbol_de st = [] \<and> coste_total st = Entero 0)"
  using kruskal_vacio[OF lista_memoria_con(1), of "''max''"] by (simp add: lista_memoria_con)




text \<open>
  C10: for every store, every reference \<open>a\<close> in use and every mode, the call of
  \<open>kruskal\<close> on \<open>a\<close> ends (it returns, or with a \<open>nan\<close> weight it may raise
  \<open>OverflowError\<close>), and after it the list object \<open>a\<close> of the caller holds the
  elements it held before, in the same order; so does every list object that was in
  use before the call. The sorted edges are in an object that the call made, another
  than \<open>a\<close>, and the accepted edges are appended to a third one.
\<close>

theorem kruskal_no_modifica_aristas:
  assumes "a < libre m" and "iteracion_de orden (nodos_de (lista m a))"
  shows "\<exists>st out. kruskal orden m a tipo = Some (st, out) \<and>
           lista (memoria st) a = lista m a \<and>
           (\<forall>r. r < libre m \<longrightarrow> lista (memoria st) r = lista m r) \<and>
           ordenadas st \<noteq> a \<and> arbol st \<noteq> a \<and> arbol st \<noteq> ordenadas st \<and>
           lista (memoria st) (ordenadas st) = aristas_ordenadas (lista m a) tipo"
proof -
  have o: "set orden = nodos_de (lista m a)" using assms(2) by (simp add: iteracion_de_def)
  from kruskal_result[OF o, of tipo] obtain st out where
    k: "kruskal orden m a tipo = Some (st, out)"
    and r: "ordenadas st = libre m" "arbol st = Suc (libre m)"
      "lista (memoria st) (libre m) = aristas_ordenadas (lista m a) tipo"
    and f: "\<forall>r. r \<noteq> libre m \<and> r \<noteq> Suc (libre m) \<longrightarrow> lista (memoria st) r = lista m r"
    by auto
  have 1: "lista (memoria st) a = lista m a" using f assms(1) by simp
  have 2: "\<forall>r. r < libre m \<longrightarrow> lista (memoria st) r = lista m r" using f by simp
  from k 1 2 r assms(1) show ?thesis by (intro exI[of _ st] exI[of _ out]) simp
qed

theorem kruskal_no_modifica_aristas_witness:
  "(0::nat) < libre (memoria_con grafo_ejemplo) \<and>
   iteracion_de orden_ejemplo (nodos_de (lista (memoria_con grafo_ejemplo) 0)) \<and>
   (\<exists>st out. kruskal orden_ejemplo (memoria_con grafo_ejemplo) 0 ''max'' = Some (st, out) \<and>
      lista (memoria st) 0 = grafo_ejemplo \<and> ordenadas st \<noteq> 0 \<and> arbol st \<noteq> 0 \<and>
      lista (memoria st) (ordenadas st) = aristas_ordenadas grafo_ejemplo ''max'')"
proof -
  have i: "iteracion_de orden_ejemplo (nodos_de (lista (memoria_con grafo_ejemplo) 0))"
    using iteracion_orden_ejemplo by (simp add: lista_memoria_con)
  from kruskal_no_modifica_aristas[OF lista_memoria_con(2) i, of "''max''"] i
  show ?thesis by (auto simp: lista_memoria_con)
qed

text \<open>
  C6, as stated, fails for the empty list of edges: \<open>kruskal\<close> returns no accepted
  edge, there is no vertex, and 0 exceeds 0 - 1.
\<close>

theorem kruskal_vacio_supera_la_cota:
  "devuelto (kruskal [] (memoria_con ([] :: string arista list)) 0 ''min'') =
     Some (Inr ([], Entero 0)) \<and>
   card (nodos_de ([] :: string arista list)) = 0 \<and>
   \<not> int (length ([] :: string arista list)) \<le>
       int (card (nodos_de ([] :: string arista list))) - 1"
proof -
  from kruskal_lista_vacia[OF lista_memoria_con(1)] obtain st where
    "kruskal [] (memoria_con ([] :: string arista list)) 0 ''min'' =
       Some (st, Inr (arbol st, coste_total st))"
    "arbol_de st = []" "coste_total st = Entero 0" by blast
  with devuelto_Some[OF this(1)] show ?thesis by (simp add: nodos_de_def)
qed

text \<open>
  C6, amended: for every list of edges that is not empty and every mode, the number
  of accepted edges in the result never exceeds the number of different vertices
  minus one, and it is equal to it exactly when the input graph is connected. (The
  call gives a result whenever no weight is \<open>nan\<close>; with a \<open>nan\<close> weight it gives a
  result or raises \<open>OverflowError\<close>.)
\<close>

theorem kruskal_cuenta_aristas:
  assumes "lista m a \<noteq> []" and "iteracion_de orden (nodos_de (lista m a))"
  shows "\<exists>st out. kruskal orden m a tipo = Some (st, out) \<and>
           (NaN \<in> peso ` set (lista m a) \<and> out = Inl OverflowError \<or>
            out = Inr (arbol st, coste_total st) \<and>
            int (length (arbol_de st)) \<le> int (card (nodos_de (lista m a))) - 1 \<and>
            (int (length (arbol_de st)) = int (card (nodos_de (lista m a))) - 1 \<longleftrightarrow>
               conexo (lista m a)))"
proof -
  have o: "set orden = nodos_de (lista m a)" using assms(2) by (simp add: iteracion_de_def)
  from kruskal_cuenta[OF o assms(1), of tipo] obtain st out where
    k: "kruskal orden m a tipo = Some (st, out)" and
    d: "NaN \<in> peso ` set (lista m a) \<and> out = Inl OverflowError \<or>
        out = Inr (arbol st, coste_total st) \<and>
        length (arbol_de st) + 1 \<le> card (nodos_de (lista m a)) \<and>
        (length (arbol_de st) + 1 = card (nodos_de (lista m a)) \<longleftrightarrow> conexo (lista m a))"
    by auto
  from d have "NaN \<in> peso ` set (lista m a) \<and> out = Inl OverflowError \<or>
            out = Inr (arbol st, coste_total st) \<and>
            int (length (arbol_de st)) \<le> int (card (nodos_de (lista m a))) - 1 \<and>
            (int (length (arbol_de st)) = int (card (nodos_de (lista m a))) - 1 \<longleftrightarrow>
               conexo (lista m a))"
  proof
    assume "NaN \<in> peso ` set (lista m a) \<and> out = Inl OverflowError"
    then show ?thesis by simp
  next
    assume c: "out = Inr (arbol st, coste_total st) \<and>
        length (arbol_de st) + 1 \<le> card (nodos_de (lista m a)) \<and>
        (length (arbol_de st) + 1 = card (nodos_de (lista m a)) \<longleftrightarrow> conexo (lista m a))"
    then have "int (length (arbol_de st)) \<le> int (card (nodos_de (lista m a))) - 1"
      by linarith
    moreover have "int (length (arbol_de st)) = int (card (nodos_de (lista m a))) - 1 \<longleftrightarrow>
        conexo (lista m a)" using c by linarith
    ultimately show ?thesis using c by simp
  qed
  with k show ?thesis by (intro exI[of _ st] exI[of _ out]) simp
qed

theorem kruskal_cuenta_aristas_witness:
  "lista (memoria_con grafo_ejemplo) 0 \<noteq> [] \<and>
   iteracion_de orden_ejemplo (nodos_de (lista (memoria_con grafo_ejemplo) 0)) \<and>
   (\<exists>st. kruskal orden_ejemplo (memoria_con grafo_ejemplo) 0 ''min'' =
            Some (st, Inr (arbol st, coste_total st)) \<and>
      length (arbol_de st) = 5 \<and> card (nodos_de grafo_ejemplo) = 6 \<and> conexo grafo_ejemplo)"
proof -
  have ne: "lista (memoria_con grafo_ejemplo) 0 \<noteq> []"
    by (simp add: lista_memoria_con grafo_ejemplo_def)
  have i: "iteracion_de orden_ejemplo (nodos_de (lista (memoria_con grafo_ejemplo) 0))"
    using iteracion_orden_ejemplo by (simp add: lista_memoria_con)
  from kruskal_orden_ejemplo_min[OF lista_memoria_con(1)] obtain st' where
    e: "kruskal orden_ejemplo (memoria_con grafo_ejemplo) 0 ''min'' =
       Some (st', Inr (arbol st', coste_total st'))"
    "length (arbol_de st') = 5" by auto
  from kruskal_cuenta_aristas[OF ne i, of "''min''"] e(1)
  have "int (length (arbol_de st')) = int (card (nodos_de grafo_ejemplo)) - 1 \<longleftrightarrow>
      conexo grafo_ejemplo"
    by (auto simp: lista_memoria_con)
  with e(2) have "conexo grafo_ejemplo" by (simp add: card_nodos_ejemplos)
  with e ne i show ?thesis
    by (intro conjI exI[of _ st']) (simp_all add: card_nodos_ejemplos)
qed

lemma conexo_por_cuenta:
  assumes i: "iteracion_de orden (nodos_de (lista m a))" and ne: "lista m a \<noteq> []"
    and k: "kruskal orden m a tipo = Some (st, Inr (arbol st, coste_total st))"
  shows "conexo (lista m a) \<longleftrightarrow> length (arbol_de st) + 1 = card (nodos_de (lista m a))"
proof -
  have o: "set orden = nodos_de (lista m a)" using i by (simp add: iteracion_de_def)
  from kruskal_cuenta[OF o ne, of tipo] k show ?thesis by auto
qed

lemma conexo_ejemplos:
  "\<not> conexo grafo_dos_componentes" "conexo grafo_una_arista" "\<not> conexo grafo_con_lazo"
proof -
  have ne: "lista (memoria_con grafo_dos_componentes) 0 \<noteq> []"
    "lista (memoria_con grafo_una_arista) 0 \<noteq> []"
    "lista (memoria_con grafo_con_lazo) 0 \<noteq> []"
    by (simp_all add: lista_memoria_con grafo_dos_componentes_def grafo_una_arista_def
        grafo_con_lazo_def)
  have i: "iteracion_de orden_dos_componentes
             (nodos_de (lista (memoria_con grafo_dos_componentes) 0))"
    "iteracion_de [''A'', ''B''] (nodos_de (lista (memoria_con grafo_una_arista) 0))"
    "iteracion_de [''A'', ''B'', ''C''] (nodos_de (lista (memoria_con grafo_con_lazo) 0))"
    using iteracion_orden_dos_componentes iteracion_una_arista iteracion_con_lazo
    by (simp_all add: lista_memoria_con)
  from kruskal_orden_dos_componentes[OF lista_memoria_con(1), of "''min''"] obtain s1 where
    1: "kruskal orden_dos_componentes (memoria_con grafo_dos_componentes) 0 ''min'' =
         Some (s1, Inr (arbol s1, coste_total s1))" "length (arbol_de s1) = 2" by auto
  from kruskal_una_arista[OF lista_memoria_con(1)] obtain s2 where
    2: "kruskal [''A'', ''B''] (memoria_con grafo_una_arista) 0 ''min'' =
         Some (s2, Inr (arbol s2, coste_total s2))" "length (arbol_de s2) = 1" by auto
  from kruskal_con_lazo[OF lista_memoria_con(1)] obtain s3 where
    3: "kruskal [''A'', ''B'', ''C''] (memoria_con grafo_con_lazo) 0 ''min'' =
         Some (s3, Inr (arbol s3, coste_total s3))" "length (arbol_de s3) = 1" by auto
  show "\<not> conexo grafo_dos_componentes"
    using conexo_por_cuenta[OF i(1) ne(1) 1(1)] 1(2)
    by (simp add: lista_memoria_con card_nodos_ejemplos)
  show "conexo grafo_una_arista"
    using conexo_por_cuenta[OF i(2) ne(2) 2(1)] 2(2)
    by (simp add: lista_memoria_con card_nodos_ejemplos)
  show "\<not> conexo grafo_con_lazo"
    using conexo_por_cuenta[OF i(3) ne(3) 3(1)] 3(2)
    by (simp add: lista_memoria_con card_nodos_ejemplos)
qed

text \<open>
  C3, as stated, fails in its last part: on the input of the two edges A-B and C-D,
  which is not connected, \<open>kruskal\<close> returns the two accepted edges and the total cost
  3 and nothing else. What it returns holds no report on connectivity: a connected
  input (the single edge A-B) and an input that is not connected (the edge A-B and a
  loop on C) get the same value.
\<close>

theorem kruskal_dos_componentes_sin_aviso:
  "iteracion_de orden_dos_componentes (nodos_de grafo_dos_componentes) \<and>
   \<not> conexo grafo_dos_componentes \<and>
   devuelto (kruskal orden_dos_componentes (memoria_con grafo_dos_componentes) 0 ''min'') =
     Some (Inr ([(''A'', ''B'', Entero 1), (''C'', ''D'', Entero 2)], Entero 3)) \<and>
   iteracion_de [''A'', ''B''] (nodos_de grafo_una_arista) \<and> conexo grafo_una_arista \<and>
   iteracion_de [''A'', ''B'', ''C''] (nodos_de grafo_con_lazo) \<and> \<not> conexo grafo_con_lazo \<and>
   devuelto (kruskal [''A'', ''B''] (memoria_con grafo_una_arista) 0 ''min'') =
     devuelto (kruskal [''A'', ''B'', ''C''] (memoria_con grafo_con_lazo) 0 ''min'')"
proof (intro conjI)
  show "iteracion_de orden_dos_componentes (nodos_de grafo_dos_componentes)"
    by (rule iteracion_orden_dos_componentes)
  show "\<not> conexo grafo_dos_componentes" by (rule conexo_ejemplos(1))
  from kruskal_orden_dos_componentes[OF lista_memoria_con(1), of "''min''"] obtain s1 where
    1: "kruskal orden_dos_componentes (memoria_con grafo_dos_componentes) 0 ''min'' =
         Some (s1, Inr (arbol s1, coste_total s1))"
       "arbol_de s1 = [(''A'', ''B'', Entero 1), (''C'', ''D'', Entero 2)]"
       "coste_total s1 = Entero 3" by auto
  show "devuelto (kruskal orden_dos_componentes (memoria_con grafo_dos_componentes) 0 ''min'') =
     Some (Inr ([(''A'', ''B'', Entero 1), (''C'', ''D'', Entero 2)], Entero 3))"
    using devuelto_Some[OF 1(1)] 1(2,3) by simp
  show "iteracion_de [''A'', ''B''] (nodos_de grafo_una_arista)"
    by (rule iteracion_una_arista)
  show "conexo grafo_una_arista" by (rule conexo_ejemplos(2))
  show "iteracion_de [''A'', ''B'', ''C''] (nodos_de grafo_con_lazo)"
    by (rule iteracion_con_lazo)
  show "\<not> conexo grafo_con_lazo" by (rule conexo_ejemplos(3))
  from kruskal_una_arista[OF lista_memoria_con(1)] obtain s2 where
    2: "kruskal [''A'', ''B''] (memoria_con grafo_una_arista) 0 ''min'' =
         Some (s2, Inr (arbol s2, coste_total s2))"
       "arbol_de s2 = [(''A'', ''B'', Entero 1)]" "coste_total s2 = Entero 1" by auto
  from kruskal_con_lazo[OF lista_memoria_con(1)] obtain s3 where
    3: "kruskal [''A'', ''B'', ''C''] (memoria_con grafo_con_lazo) 0 ''min'' =
         Some (s3, Inr (arbol s3, coste_total s3))"
       "arbol_de s3 = [(''A'', ''B'', Entero 1)]" "coste_total s3 = Entero 1" by auto
  show "devuelto (kruskal [''A'', ''B''] (memoria_con grafo_una_arista) 0 ''min'') =
     devuelto (kruskal [''A'', ''B'', ''C''] (memoria_con grafo_con_lazo) 0 ''min'')"
    using devuelto_Some[OF 2(1)] devuelto_Some[OF 3(1)] 2(2,3) 3(2,3) by simp
qed

text \<open>
  C3, amended: on the input of the two edges A-B (weight 1) and C-D (weight 2), which
  is not connected, in either mode and whatever the order in which the set of vertices
  is iterated, \<open>kruskal\<close> accepts exactly two edges with total cost 3; the value it
  returns is the pair of the accepted edges and the total cost.
\<close>

theorem kruskal_dos_componentes:
  assumes "lista m a = grafo_dos_componentes"
    and "iteracion_de orden (nodos_de grafo_dos_componentes)"
  shows "\<not> conexo grafo_dos_componentes \<and>
         (\<exists>st. kruskal orden m a tipo = Some (st, Inr (arbol st, coste_total st)) \<and>
                length (arbol_de st) = 2 \<and> coste_total st = Entero 3)"
proof -
  have o: "set orden = nodos_de (lista m a)" using assms by (simp add: iteracion_de_def)
  have o': "set orden_dos_componentes = nodos_de (lista m a)"
    using iteracion_orden_dos_componentes assms(1) by (simp add: iteracion_de_def)
  have "kruskal orden m a tipo = kruskal orden_dos_componentes m a tipo"
    using o o' by (rule kruskal_orden)
  with kruskal_orden_dos_componentes[OF assms(1), of tipo]
  have "\<exists>st. kruskal orden m a tipo = Some (st, Inr (arbol st, coste_total st)) \<and>
                length (arbol_de st) = 2 \<and> coste_total st = Entero 3"
    by (auto split: if_splits)
  with conexo_ejemplos(1) show ?thesis by simp
qed

theorem kruskal_dos_componentes_witness:
  "lista (memoria_con grafo_dos_componentes) 0 = grafo_dos_componentes \<and>
   iteracion_de [''D'', ''C'', ''B'', ''A''] (nodos_de grafo_dos_componentes) \<and>
   \<not> conexo grafo_dos_componentes \<and>
   (\<exists>st. kruskal [''D'', ''C'', ''B'', ''A''] (memoria_con grafo_dos_componentes) 0 ''max'' =
            Some (st, Inr (arbol st, coste_total st)) \<and>
          length (arbol_de st) = 2 \<and> coste_total st = Entero 3)"
proof -
  have i: "iteracion_de [''D'', ''C'', ''B'', ''A''] (nodos_de grafo_dos_componentes)"
    by (auto simp: iteracion_de_def nodos_de_def grafo_dos_componentes_def)
  from kruskal_dos_componentes[OF lista_memoria_con(1) i, of "''max''"] i show ?thesis
    by (simp add: lista_memoria_con)
qed

end
